theory Spec2Isabelle
  imports Main "HOL-Library.Multiset"
begin

section \<open>The session tree navigator of extensions/sessions.ts\<close>

subsection \<open>Strings\<close>

text \<open>
  A JavaScript string is a sequence of UTF-16 code units. The connector glyphs of the
  tree view lie outside ASCII, so a string is modelled as the list of its code units.
\<close>

type_synonym jsstring = "nat list"

definition str :: "string \<Rightarrow> jsstring" where
  "str s = map of_char s"

text \<open>
  \<^verbatim>\<open>String.prototype.trim\<close> removes the leading and trailing code units that are
  WhiteSpace or LineTerminator in ECMAScript.
\<close>

definition isWhite :: "nat \<Rightarrow> bool" where
  "isWhite c = (c = 9 \<or> c = 10 \<or> c = 11 \<or> c = 12 \<or> c = 13 \<or> c = 32 \<or> c = 160
     \<or> c = 5760 \<or> (8192 \<le> c \<and> c \<le> 8202) \<or> c = 8232 \<or> c = 8233 \<or> c = 8239
     \<or> c = 8287 \<or> c = 12288 \<or> c = 65279)"

definition trim :: "jsstring \<Rightarrow> jsstring" where
  "trim s = rev (dropWhile isWhite (rev (dropWhile isWhite s)))"

text \<open>
  \<^verbatim>\<open>String.prototype.toLowerCase\<close> maps every cased letter by the case tables of
  Unicode, which are no part of the program. The model takes that mapping as a parameter,
  \<open>lower\<close>, which may be any function on strings, and fixes only that a string of
  whitespace (the empty string included) is returned as it is: no whitespace code unit
  has a case mapping. With the mapping of the built-in for \<open>lower\<close> this is the
  built-in; every statement below holds for every \<open>lower\<close>.
\<close>

definition toLowerCase :: "(jsstring \<Rightarrow> jsstring) \<Rightarrow> jsstring \<Rightarrow> jsstring" where
  "toLowerCase lower s = (if list_all isWhite s then s else lower s)"

text \<open>
  The mapping of the built-in on a string of Basic Latin code units (all below 128):
  \<open>A\<close>..\<open>Z\<close> (65..90) go to \<open>a\<close>..\<open>z\<close>, every other unit is kept. The concrete
  runs, whose strings are of this kind, use it for \<open>lower\<close>.
\<close>

definition lowerUnit :: "nat \<Rightarrow> nat" where
  "lowerUnit c = (if 65 \<le> c \<and> c \<le> 90 then c + 32 else c)"

definition asciiLower :: "jsstring \<Rightarrow> jsstring" where
  "asciiLower s = map lowerUnit s"

text \<open>
  The same for a string of Latin-1 code units (all below 256), where the capital letters
  beyond Basic Latin are 192..222 without the multiplication sign 215.
\<close>

definition latin1Unit :: "nat \<Rightarrow> nat" where
  "latin1Unit c =
     (if (65 \<le> c \<and> c \<le> 90) \<or> (192 \<le> c \<and> c \<le> 222 \<and> c \<noteq> 215) then c + 32 else c)"

definition latin1Lower :: "jsstring \<Rightarrow> jsstring" where
  "latin1Lower s = map latin1Unit s"

text \<open>\<^verbatim>\<open>Array.prototype.join\<close> with a separator.\<close>

fun join :: "jsstring \<Rightarrow> jsstring list \<Rightarrow> jsstring" where
  "join sep [] = []"
| "join sep [x] = x"
| "join sep (x # y # ys) = x @ sep @ join sep (y # ys)"

text \<open>\<^verbatim>\<open>text.includes(query)\<close>: the query occurs at some position of the text.\<close>

fun startsWith :: "jsstring \<Rightarrow> jsstring \<Rightarrow> bool" where
  "startsWith text [] = True"
| "startsWith [] (q # qs) = False"
| "startsWith (c # cs) (q # qs) = (c = q \<and> startsWith cs qs)"

fun includesStr :: "jsstring \<Rightarrow> jsstring \<Rightarrow> bool" where
  "includesStr [] query = (query = [])"
| "includesStr (c # cs) query = (startsWith (c # cs) query \<or> includesStr cs query)"

subsection \<open>JSON values and sessions\<close>

text \<open>
  The value of \<^verbatim>\<open>JSON.parse\<close>. A number is carried as an integer: the code only
  tests a value for truthiness and uses it as a key of a map whose keys are strings.
\<close>

datatype json =
    JNull
  | JBool bool
  | JNum int
  | JStr jsstring
  | JArr "json list"
  | JObj "(jsstring \<times> json) list"

fun truthy :: "json \<Rightarrow> bool" where
  "truthy JNull = False"
| "truthy (JBool b) = b"
| "truthy (JNum n) = (n \<noteq> 0)"
| "truthy (JStr s) = (s \<noteq> [])"
| "truthy (JArr vs) = True"
| "truthy (JObj kvs) = True"

text \<open>
  \<^verbatim>\<open>SessionInfo\<close> comes from the host package; these are the fields the extension
  reads. \<open>created\<close> and \<open>modified\<close> are the \<^verbatim>\<open>getTime()\<close> of the two dates, in
  milliseconds (of valid dates: an integer each). \<^verbatim>\<open>SessionWithParent\<close> extends it with the \<open>parentSession\<close> read from
  the header: \<open>None\<close> is \<^verbatim>\<open>undefined\<close>, and the value is whatever JSON the header
  held (the declared type is \<^verbatim>\<open>string\<close>).
\<close>

record SessionInfo =
  path :: jsstring
  name :: "jsstring option"
  firstMessage :: jsstring
  cwd :: jsstring
  created :: int
  modified :: int

record SessionWithParent = SessionInfo +
  parentSession :: "json option"

datatype SessionTreeNode =
  SessionTreeNode (session: SessionWithParent) (children: "SessionTreeNode list") (depth: nat)

subsection \<open>getSessionHeader and loadSessionsWithParents\<close>

text \<open>
  Property access \<^verbatim>\<open>header.key\<close> on a parsed value: on \<^verbatim>\<open>null\<close> it throws a
  TypeError (\<open>None\<close>); on an object it is the value of the key or \<^verbatim>\<open>undefined\<close>
  (\<open>Some None\<close>); on a boolean, number, string or array the two keys the code reads,
  \<^verbatim>\<open>type\<close> and \<^verbatim>\<open>parentSession\<close>, are \<^verbatim>\<open>undefined\<close>.
\<close>

fun getProp :: "json \<Rightarrow> jsstring \<Rightarrow> json option option" where
  "getProp JNull key = None"
| "getProp (JObj kvs) key = Some (map_of kvs key)"
| "getProp v key = Some None"

record Header =
  headerParent :: "json option"

text \<open>
  The body of the \<^verbatim>\<open>line\<close> handler. \<open>parse\<close> is \<^verbatim>\<open>JSON.parse\<close>, \<open>None\<close> when it
  throws; the \<^verbatim>\<open>try\<close>/\<^verbatim>\<open>catch\<close> turns every exception into \<^verbatim>\<open>resolve(null)\<close>.
  The result is the value the promise is resolved with: \<open>None\<close> is \<^verbatim>\<open>null\<close>.
\<close>

definition onLine :: "(jsstring \<Rightarrow> json option) \<Rightarrow> jsstring \<Rightarrow> Header option" where
  "onLine parse line =
     (case parse line of
        None \<Rightarrow> None
      | Some header \<Rightarrow>
          (case getProp header (str ''type'') of
             None \<Rightarrow> None
           | Some t \<Rightarrow>
               if t = Some (JStr (str ''session''))
               then (case getProp header (str ''parentSession'') of
                       None \<Rightarrow> None
                     | Some p \<Rightarrow> Some \<lparr>headerParent = p\<rparr>)
               else None))"

text \<open>
  The events for which \<^verbatim>\<open>getSessionHeader\<close> registers a handler: a line of the
  readline interface, an error of the interface, an error of the stream. The read of one
  file is the sequence of these events that the runtime delivers; readline emits a
  \<^verbatim>\<open>line\<close> event for each line of input and, at the end of the stream, for a
  non-empty unterminated rest, so a file of zero bytes delivers none (only
  \<^verbatim>\<open>close\<close>, which has no handler).

  The promise is settled by the first \<^verbatim>\<open>resolve\<close>; later calls do nothing. The
  result \<open>None\<close> is a promise that stays pending, \<open>Some r\<close> one resolved with \<open>r\<close>.
  No handler rejects.
\<close>

datatype event = Line jsstring | RlError | StreamError

fun getSessionHeader :: "(jsstring \<Rightarrow> json option) \<Rightarrow> event list \<Rightarrow> Header option option" where
  "getSessionHeader parse [] = None"
| "getSessionHeader parse (Line line # rest) = Some (onLine parse line)"
| "getSessionHeader parse (RlError # rest) = Some None"
| "getSessionHeader parse (StreamError # rest) = Some None"

text \<open>
  \<^verbatim>\<open>loadSessionsWithParents\<close>. \<open>reads p\<close> is the event sequence of the read of the
  file at path \<open>p\<close>. The loop awaits one header after the other; an await on a promise
  that stays pending never resumes, so the loop state records whether the function is
  still running (\<open>stalled\<close>). \<open>notified\<close> is the list of the \<^verbatim>\<open>onProgress\<close> calls
  made so far, as pairs (loaded, total).
\<close>

record LoadState =
  results :: "SessionWithParent list"
  loaded :: nat
  notified :: "(nat \<times> nat) list"
  stalled :: bool

definition loadStep ::
  "(jsstring \<Rightarrow> json option) \<Rightarrow> (jsstring \<Rightarrow> event list) \<Rightarrow> nat \<Rightarrow> SessionInfo \<Rightarrow> LoadState \<Rightarrow> LoadState" where
  "loadStep parse reads totl s st =
     (if stalled st then st
      else (case getSessionHeader parse (reads (path s)) of
              None \<Rightarrow> st\<lparr>stalled := True\<rparr>
            | Some header \<Rightarrow>
                st\<lparr>results := results st @
                      [SessionInfo.extend s
                         (SessionWithParent.fields
                            (case header of None \<Rightarrow> None | Some h \<Rightarrow> headerParent h))],
                   loaded := loaded st + 1,
                   notified := notified st @ [(loaded st + 1, totl)]\<rparr>))"

definition loadSessionsWithParents ::
  "(jsstring \<Rightarrow> json option) \<Rightarrow> (jsstring \<Rightarrow> event list) \<Rightarrow> SessionInfo list \<Rightarrow> LoadState" where
  "loadSessionsWithParents parse reads sessions =
     fold (loadStep parse reads (length sessions)) sessions
       \<lparr>results = [], loaded = 0, notified = [], stalled = False\<rparr>"

subsection \<open>buildSessionTree\<close>

text \<open>
  The two maps are keyed by the values the code passes to \<^verbatim>\<open>set\<close>, \<^verbatim>\<open>get\<close> and
  \<^verbatim>\<open>has\<close>: a path (a string) or a \<open>parentSession\<close> value. Only paths are ever
  stored as keys of \<open>byPath\<close>, so a reference that is not a string is never found
  there; a later session with the same path replaces an earlier one.
\<close>

definition byPathOf :: "SessionWithParent list \<Rightarrow> (json \<rightharpoonup> SessionWithParent)" where
  "byPathOf sessions = fold (\<lambda>s m. m(JStr (path s) \<mapsto> s)) sessions Map.empty"

text \<open>\<^verbatim>\<open>childrenOf.get(key) || []\<close>: the bucket of a key, empty when the key is absent.\<close>

definition bucket :: "(json \<rightharpoonup> SessionWithParent list) \<Rightarrow> json \<Rightarrow> SessionWithParent list" where
  "bucket childrenOf key = (case childrenOf key of None \<Rightarrow> [] | Some cs \<Rightarrow> cs)"

text \<open>One round of the second loop: the session goes to its parent's bucket or to the roots.\<close>

definition indexStep ::
  "(json \<rightharpoonup> SessionWithParent) \<Rightarrow> SessionWithParent \<Rightarrow>
   (json \<rightharpoonup> SessionWithParent list) \<times> SessionWithParent list \<Rightarrow>
   (json \<rightharpoonup> SessionWithParent list) \<times> SessionWithParent list" where
  "indexStep byPath s acc =
     (case acc of (childrenOf, roots) \<Rightarrow>
        (case parentSession s of
           None \<Rightarrow> (childrenOf, roots @ [s])
         | Some p \<Rightarrow>
             if truthy p \<and> byPath p \<noteq> None
             then (childrenOf(p \<mapsto> bucket childrenOf p @ [s]), roots)
             else (childrenOf, roots @ [s])))"

definition indexSessions ::
  "SessionWithParent list \<Rightarrow> (json \<rightharpoonup> SessionWithParent list) \<times> SessionWithParent list" where
  "indexSessions sessions = fold (indexStep (byPathOf sessions)) sessions (Map.empty, [])"

text \<open>
  \<^verbatim>\<open>buildNode\<close> recurses through the buckets with no guard, so the model counts the
  nesting of calls: \<open>None\<close> is a recursion deeper than \<open>fuel\<close>. (For sessions with
  distinct paths the number of sessions is fuel enough, and more fuel gives the same
  tree: \<open>buildSessionTree_returns\<close>, \<open>buildSessionTree_fuel_mono\<close> below.) \<^verbatim>\<open>Array.prototype.sort\<close>
  is stable, as \<open>sort_key\<close> is. The code sorts the bucket in place; sorting a sorted
  bucket again leaves it as it is (\<open>sort_key_again\<close> below), so a second visit of a
  bucket reads what the model reads.
\<close>

fun buildNode ::
  "nat \<Rightarrow> (json \<rightharpoonup> SessionWithParent list) \<Rightarrow> SessionWithParent \<Rightarrow> nat \<Rightarrow> SessionTreeNode option" where
  "buildNode 0 childrenOf s d = None"
| "buildNode (Suc fuel) childrenOf s d =
     (let cs = sort_key created (bucket childrenOf (JStr (path s)))
      in map_option (\<lambda>ts. SessionTreeNode s ts d)
           (those (map (\<lambda>child. buildNode fuel childrenOf child (d + 1)) cs)))"

definition buildSessionTree :: "nat \<Rightarrow> SessionWithParent list \<Rightarrow> SessionTreeNode list option" where
  "buildSessionTree fuel sessions =
     (case indexSessions sessions of (childrenOf, roots) \<Rightarrow>
        those (map (\<lambda>root. buildNode fuel childrenOf root 0)
                 (sort_key (\<lambda>s. - modified s) roots)))"

subsection \<open>flattenTree\<close>

record FlatNode =
  flat_session :: SessionWithParent
  flat_depth :: nat
  prefix :: jsstring
  isLast :: bool
  hasChildren :: bool

text \<open>The four fragments of a prefix, as code units.\<close>

definition lastConn :: jsstring where
  "lastConn = [9492, 9472, 32]"

definition branchConn :: jsstring where
  "branchConn = [9500, 9472, 32]"

definition blankFrag :: jsstring where
  "blankFrag = [32, 32, 32]"

definition barFrag :: jsstring where
  "barFrag = [9474, 32, 32]"

text \<open>
  The inner function \<^verbatim>\<open>flatten\<close>; its value is the list of the entries it pushes
  to \<^verbatim>\<open>result\<close>, in the order of the pushes.
\<close>

function flatten :: "SessionTreeNode \<Rightarrow> nat \<Rightarrow> jsstring list \<Rightarrow> bool \<Rightarrow> FlatNode list" where
  "flatten node d parentPrefixes is_last =
     (let pre = (if d > 0
                 then concat parentPrefixes @ (if is_last then lastConn else branchConn)
                 else []);
          newParentPrefixes =
            (if d > 0 then parentPrefixes @ [if is_last then blankFrag else barFrag]
             else parentPrefixes)
      in \<lparr>flat_session = session node, flat_depth = d, prefix = pre, isLast = is_last,
           hasChildren = (length (children node) > 0)\<rparr>
         # concat (map (\<lambda>i. flatten (children node ! i) (d + 1) newParentPrefixes
                                (Suc i = length (children node)))
                     [0..<length (children node)]))"
  by pat_completeness auto
termination
proof (relation "measure (\<lambda>(node, d, pp, l). size node)")
  show "wf (measure (\<lambda>(node, d, pp, l). size node))" by simp
next
  fix node :: SessionTreeNode and d :: nat and parentPrefixes :: "jsstring list"
    and is_last :: bool and x xa xb
  assume "xb \<in> set [0..<length (children node)]"
  then have "children node ! xb \<in> set (children node)" by simp
  then have "size (children node ! xb) < size node"
    by (cases node) (auto simp: less_Suc_eq_le intro: size_list_estimation')
  then show "((children node ! xb, d + 1, xa, Suc xb = length (children node)),
              (node, d, parentPrefixes, is_last))
             \<in> measure (\<lambda>(node, d, pp, l). size node)"
    by simp
qed

declare flatten.simps [simp del]

definition flattenTree :: "SessionTreeNode list \<Rightarrow> FlatNode list" where
  "flattenTree roots =
     concat (map (\<lambda>i. flatten (roots ! i) 0 [] (Suc i = length roots)) [0..<length roots])"

subsection \<open>The selector: filter, scrolling, keys\<close>

text \<open>
  The state of a \<^verbatim>\<open>SessionTreeSelector\<close>. \<open>searchInput\<close> is the value of the
  \<^verbatim>\<open>Input\<close> component (\<^verbatim>\<open>getValue()\<close>). Indices are JavaScript numbers that
  take integer values only, and can become negative.
\<close>

record SessionTreeSelector =
  flatNodes :: "FlatNode list"
  filteredNodes :: "FlatNode list"
  selectedIndex :: int
  scrollOffset :: int
  maxVisibleLines :: int
  searchInput :: jsstring
  searchMode :: bool
  showAllProjects :: bool
  currentSessionPath :: "jsstring option"

definition ensureVisible :: "SessionTreeSelector \<Rightarrow> SessionTreeSelector" where
  "ensureVisible st =
     (if selectedIndex st < scrollOffset st then st\<lparr>scrollOffset := selectedIndex st\<rparr>
      else if selectedIndex st \<ge> scrollOffset st + maxVisibleLines st
      then st\<lparr>scrollOffset := selectedIndex st - maxVisibleLines st + 1\<rparr>
      else st)"

text \<open>
  The text a node is matched against: \<^verbatim>\<open>[firstMessage, name, cwd, path]\<close> without
  its falsy members (\<^verbatim>\<open>undefined\<close> and the empty string), joined by one space and
  lowercased by \<open>toLowerCase\<close> with the mapping \<open>lower\<close>.
\<close>

definition matchText :: "(jsstring \<Rightarrow> jsstring) \<Rightarrow> FlatNode \<Rightarrow> jsstring" where
  "matchText lower node =
     toLowerCase lower (join [32]
       (map the (filter (\<lambda>f. f \<noteq> None \<and> f \<noteq> Some [])
          [Some (firstMessage (flat_session node)), name (flat_session node),
           Some (cwd (flat_session node)), Some (path (flat_session node))])))"

definition filterNodes ::
  "(jsstring \<Rightarrow> jsstring) \<Rightarrow> FlatNode list \<Rightarrow> jsstring \<Rightarrow> FlatNode list" where
  "filterNodes lower nodes val =
     (let query = trim (toLowerCase lower val)
      in if query = [] then nodes
         else filter (\<lambda>node. includesStr (matchText lower node) query) nodes)"

definition applyFilter ::
  "(jsstring \<Rightarrow> jsstring) \<Rightarrow> SessionTreeSelector \<Rightarrow> SessionTreeSelector" where
  "applyFilter lower st =
     (let filtered = filterNodes lower (flatNodes st) (searchInput st)
      in ensureVisible
           (st\<lparr>filteredNodes := filtered,
               selectedIndex := min (selectedIndex st) (max 0 (int (length filtered) - 1)),
               scrollOffset := 0\<rparr>))"

text \<open>\<^verbatim>\<open>Array.prototype.findIndex\<close>: the first index that satisfies, or -1.\<close>

fun findIndex :: "('a \<Rightarrow> bool) \<Rightarrow> 'a list \<Rightarrow> int" where
  "findIndex P [] = - 1"
| "findIndex P (x # xs) =
     (if P x then 0 else (let i = findIndex P xs in if i < 0 then - 1 else i + 1))"

definition newSelector ::
  "SessionTreeNode list \<Rightarrow> int \<Rightarrow> bool \<Rightarrow> jsstring option \<Rightarrow> SessionTreeSelector" where
  "newSelector roots maxLines showAll current =
     (let st = \<lparr>flatNodes = flattenTree roots, filteredNodes = flattenTree roots,
                selectedIndex = 0, scrollOffset = 0, maxVisibleLines = maxLines,
                searchInput = [], searchMode = False, showAllProjects = showAll,
                currentSessionPath = current\<rparr>
      in (case current of
            None \<Rightarrow> st
          | Some p \<Rightarrow>
              if p = [] then st
              else (let idx = findIndex (\<lambda>n. path (flat_session n) = p) (flatNodes st)
                    in if idx \<ge> 0 then ensureVisible (st\<lparr>selectedIndex := idx\<rparr>) else st)))"

text \<open>
  Keys. \<^verbatim>\<open>matchesKey\<close> and the \<^verbatim>\<open>Input\<close> component belong to the terminal
  library, so \<open>handleInput\<close> takes them as parameters: \<open>mk data k\<close> is
  \<^verbatim>\<open>matchesKey(data, k)\<close>, and \<open>typed v data\<close> is the value of the input after
  \<^verbatim>\<open>searchInput.handleInput(data)\<close> when it was \<open>v\<close> before; \<open>lower\<close> is the
  mapping of \<open>toLowerCase\<close>, which \<open>applyFilter\<close> needs. The callbacks
  \<^verbatim>\<open>onSelect\<close> and \<^verbatim>\<open>onCancel\<close> are the outcome that \<open>handleInput\<close> returns
  beside the state.
\<close>

datatype keyId =
  KeyUp | KeyDown | KeyPageUp | KeyPageDown | KeyHome | KeyEnd | KeyEnter | KeyEscape
  | KeyLit jsstring

datatype outcome = Selected jsstring | Cancelled

definition handleInput ::
  "(jsstring \<Rightarrow> keyId \<Rightarrow> bool) \<Rightarrow> (jsstring \<Rightarrow> jsstring \<Rightarrow> jsstring) \<Rightarrow>
   (jsstring \<Rightarrow> jsstring) \<Rightarrow> jsstring \<Rightarrow>
   SessionTreeSelector \<Rightarrow> SessionTreeSelector \<times> outcome option" where
  "handleInput mk typed lower data st =
     (if searchMode st then
        (if mk data KeyEscape then (applyFilter lower (st\<lparr>searchMode := False, searchInput := []\<rparr>), None)
         else if mk data KeyEnter then (st\<lparr>searchMode := False\<rparr>, None)
         else (applyFilter lower (st\<lparr>searchInput := typed (searchInput st) data\<rparr>), None))
      else if mk data KeyUp \<or> mk data (KeyLit (str ''k'')) then
        (if selectedIndex st > 0
         then (ensureVisible (st\<lparr>selectedIndex := selectedIndex st - 1\<rparr>), None)
         else (st, None))
      else if mk data KeyDown \<or> mk data (KeyLit (str ''j'')) then
        (if selectedIndex st < int (length (filteredNodes st)) - 1
         then (ensureVisible (st\<lparr>selectedIndex := selectedIndex st + 1\<rparr>), None)
         else (st, None))
      else if mk data KeyPageUp then
        (ensureVisible (st\<lparr>selectedIndex := max 0 (selectedIndex st - maxVisibleLines st)\<rparr>), None)
      else if mk data KeyPageDown then
        (ensureVisible
           (st\<lparr>selectedIndex := min (int (length (filteredNodes st)) - 1)
                                   (selectedIndex st + maxVisibleLines st)\<rparr>), None)
      else if mk data KeyHome then (ensureVisible (st\<lparr>selectedIndex := 0\<rparr>), None)
      else if mk data KeyEnd then
        (ensureVisible (st\<lparr>selectedIndex := int (length (filteredNodes st)) - 1\<rparr>), None)
      else if mk data KeyEnter then
        (if 0 \<le> selectedIndex st \<and> selectedIndex st < int (length (filteredNodes st))
         then (st, Some (Selected (path (flat_session (filteredNodes st ! nat (selectedIndex st))))))
         else (st, None))
      else if mk data KeyEscape then (st, Some Cancelled)
      else if data = str ''/'' then (st\<lparr>searchMode := True\<rparr>, None)
      else (st, None))"

subsection \<open>Predicates of the statements and data of the concrete runs\<close>

text \<open>The window of \<open>lines\<close> rows that starts at row \<open>off\<close> shows row \<open>i\<close>.\<close>

definition visibleAt :: "int \<Rightarrow> int \<Rightarrow> int \<Rightarrow> bool" where
  "visibleAt off lines i = (off \<le> i \<and> i \<le> off + lines - 1)"

text \<open>The data is one of the four keys that move the selection by one row.\<close>

definition isUpDown :: "(jsstring \<Rightarrow> keyId \<Rightarrow> bool) \<Rightarrow> jsstring \<Rightarrow> bool" where
  "isUpDown mk data = (mk data KeyUp \<or> mk data (KeyLit (str ''k''))
     \<or> mk data KeyDown \<or> mk data (KeyLit (str ''j'')))"

text \<open>
  A plain terminal for the concrete runs: a key is matched by its usual byte sequence, a
  literal by itself, and the input appends what is typed.
\<close>

fun demoKeys :: "jsstring \<Rightarrow> keyId \<Rightarrow> bool" where
  "demoKeys data KeyUp = (data = [27, 91, 65])"
| "demoKeys data KeyDown = (data = [27, 91, 66])"
| "demoKeys data KeyPageUp = (data = [27, 91, 53, 126])"
| "demoKeys data KeyPageDown = (data = [27, 91, 54, 126])"
| "demoKeys data KeyHome = (data = [27, 91, 72])"
| "demoKeys data KeyEnd = (data = [27, 91, 70])"
| "demoKeys data KeyEnter = (data = [13])"
| "demoKeys data KeyEscape = (data = [27])"
| "demoKeys data (KeyLit s) = (data = s)"

definition demoTyped :: "jsstring \<Rightarrow> jsstring \<Rightarrow> jsstring" where
  "demoTyped v data = v @ data"

definition demoSession :: "string \<Rightarrow> int \<Rightarrow> int \<Rightarrow> json option \<Rightarrow> SessionWithParent" where
  "demoSession p c m par =
     \<lparr>path = str p, name = None, firstMessage = str ''hello'', cwd = str ''/w'',
      created = c, modified = m, parentSession = par\<rparr>"

definition demoInfo :: "string \<Rightarrow> SessionInfo" where
  "demoInfo p =
     \<lparr>path = str p, name = None, firstMessage = str ''hello'', cwd = str ''/w'',
      created = 1, modified = 1\<rparr>"

definition demoEntry :: "string \<Rightarrow> FlatNode" where
  "demoEntry p =
     \<lparr>flat_session = demoSession p 1 1 None, flat_depth = 0, prefix = [], isLast = True,
      hasChildren = False\<rparr>"

text \<open>An entry whose first message is \<open>Emile\<close> with an acute accent on the capital.\<close>

definition demoAccented :: FlatNode where
  "demoAccented =
     \<lparr>flat_session = (demoSession ''/s/e'' 1 1 None)\<lparr>firstMessage := [201, 109, 105, 108, 101]\<rparr>,
      flat_depth = 0, prefix = [], isLast = True, hasChildren = False\<rparr>"

definition demoSelector :: "FlatNode list \<Rightarrow> int \<Rightarrow> int \<Rightarrow> int \<Rightarrow> SessionTreeSelector" where
  "demoSelector nodes sel off lines =
     \<lparr>flatNodes = nodes, filteredNodes = nodes, selectedIndex = sel, scrollOffset = off,
      maxVisibleLines = lines, searchInput = [], searchMode = False, showAllProjects = False,
      currentSessionPath = None\<rparr>"

text \<open>A parser and a file system for the concrete runs: every line is the header of a
  session without parent; the file at \<open>/s/empty\<close> has no bytes, every other file has
  one line.\<close>

definition demoParse :: "jsstring \<Rightarrow> json option" where
  "demoParse line = Some (JObj [(str ''type'', JStr (str ''session''))])"

definition demoReads :: "jsstring \<Rightarrow> event list" where
  "demoReads p = (if p = str ''/s/empty'' then [] else [Line (str ''{}'')])"

text \<open>The state after a sequence of inputs.\<close>

definition runInputs ::
  "(jsstring \<Rightarrow> keyId \<Rightarrow> bool) \<Rightarrow> (jsstring \<Rightarrow> jsstring \<Rightarrow> jsstring) \<Rightarrow>
   (jsstring \<Rightarrow> jsstring) \<Rightarrow> jsstring list \<Rightarrow>
   SessionTreeSelector \<Rightarrow> SessionTreeSelector" where
  "runInputs mk typed lower datas st =
     fold (\<lambda>data s. fst (handleInput mk typed lower data s)) datas st"

text \<open>
  The filter as the sentence "the entries whose match target contains the query as a
  case-insensitive substring" reads: the query is lowercased, and nothing else is done
  to it.
\<close>

definition containsQuery :: "(jsstring \<Rightarrow> jsstring) \<Rightarrow> FlatNode \<Rightarrow> jsstring \<Rightarrow> bool" where
  "containsQuery lower node val = includesStr (matchText lower node) (toLowerCase lower val)"

definition matchingEntries ::
  "(jsstring \<Rightarrow> jsstring) \<Rightarrow> FlatNode list \<Rightarrow> jsstring \<Rightarrow> FlatNode list" where
  "matchingEntries lower nodes val = filter (\<lambda>node. containsQuery lower node val) nodes"

text \<open>The same with the query trimmed, as \<open>filterNodes\<close> prepares it.\<close>

definition containsTrimmed :: "(jsstring \<Rightarrow> jsstring) \<Rightarrow> FlatNode \<Rightarrow> jsstring \<Rightarrow> bool" where
  "containsTrimmed lower node val =
     includesStr (matchText lower node) (trim (toLowerCase lower val))"

subsection \<open>Parent chains, tree positions and prefixes\<close>

text \<open>
  The session that the parent reference of \<open>s\<close> resolves to in the index, if the
  second loop of \<open>buildSessionTree\<close> takes \<open>s\<close> for a child (the reference is truthy
  and a key of \<open>byPath\<close>); \<open>None\<close> when the loop takes \<open>s\<close> for a root.
\<close>

definition parentOf :: "SessionWithParent list \<Rightarrow> SessionWithParent \<Rightarrow> SessionWithParent option" where
  "parentOf sessions s =
     (case parentSession s of
        None \<Rightarrow> None
      | Some p \<Rightarrow> if truthy p then byPathOf sessions p else None)"

text \<open>The session \<open>j\<close> parent references above \<open>s\<close>.\<close>

fun ancestor :: "SessionWithParent list \<Rightarrow> nat \<Rightarrow> SessionWithParent \<Rightarrow> SessionWithParent option" where
  "ancestor sessions 0 s = Some s"
| "ancestor sessions (Suc j) s =
     (case parentOf sessions s of None \<Rightarrow> None | Some q \<Rightarrow> ancestor sessions j q)"

text \<open>
  \<open>s\<close> is \<open>k\<close> parent references below a session without a resolved parent. A
  session reaches a root when that holds for a \<open>k\<close> smaller than the number of
  sessions: it is not on a cycle of references and not below one.
\<close>

definition atLevel :: "SessionWithParent list \<Rightarrow> nat \<Rightarrow> SessionWithParent \<Rightarrow> bool" where
  "atLevel sessions k s =
     (case ancestor sessions k s of None \<Rightarrow> False | Some r \<Rightarrow> parentOf sessions r = None)"

definition reachesRoot :: "SessionWithParent list \<Rightarrow> SessionWithParent \<Rightarrow> bool" where
  "reachesRoot sessions s = list_ex (\<lambda>k. atLevel sessions k s) [0..<length sessions]"

text \<open>The sessions of a tree in pre-order, and its subtrees in pre-order.\<close>

fun preorder :: "SessionTreeNode \<Rightarrow> SessionWithParent list" where
  "preorder (SessionTreeNode s ts d) = s # concat (map preorder ts)"


text \<open>
  A position in a forest is the list of the indices to follow: the index of a root, then
  of a child of that root, and so on. \<open>subAt\<close> and \<open>nodeAt\<close> are the node at a
  position; \<open>flagsBelow\<close> and \<open>lastFlags\<close> tell, for each node on the way, whether it
  is the last of its siblings. The last flag of \<open>lastFlags\<close> is that of the node
  itself, the first that of its root; \<open>ancestorFlags\<close> are those between: the flags of
  the proper ancestors that have a parent.
\<close>

fun subAt :: "SessionTreeNode \<Rightarrow> nat list \<Rightarrow> SessionTreeNode option" where
  "subAt t [] = Some t"
| "subAt t (i # js) = (if i < length (children t) then subAt (children t ! i) js else None)"

fun flagsBelow :: "SessionTreeNode \<Rightarrow> nat list \<Rightarrow> bool list" where
  "flagsBelow t [] = []"
| "flagsBelow t (i # js) = (Suc i = length (children t)) # flagsBelow (children t ! i) js"

fun nodeAt :: "SessionTreeNode list \<Rightarrow> nat list \<Rightarrow> SessionTreeNode option" where
  "nodeAt roots [] = None"
| "nodeAt roots (i # js) = (if i < length roots then subAt (roots ! i) js else None)"

fun lastFlags :: "SessionTreeNode list \<Rightarrow> nat list \<Rightarrow> bool list" where
  "lastFlags roots [] = []"
| "lastFlags roots (i # js) = (Suc i = length roots) # flagsBelow (roots ! i) js"

definition ancestorFlags :: "SessionTreeNode list \<Rightarrow> nat list \<Rightarrow> bool list" where
  "ancestorFlags roots pos = butlast (tl (lastFlags roots pos))"

text \<open>
  The fragment an ancestor contributes and the connector of the node itself, by the
  flag; a prefix cut into its fragments of three code units.
\<close>

definition ancestorFragment :: "bool \<Rightarrow> jsstring" where
  "ancestorFragment lastChild = (if lastChild then blankFrag else barFrag)"

definition connector :: "bool \<Rightarrow> jsstring" where
  "connector lastChild = (if lastChild then lastConn else branchConn)"

fun fragments :: "jsstring \<Rightarrow> jsstring list" where
  "fragments (a # b # c # rest) = [a, b, c] # fragments rest"
| "fragments rest = []"

definition barCount :: "jsstring \<Rightarrow> nat" where
  "barCount pre = length (filter (\<lambda>f. f = barFrag) (butlast (fragments pre)))"

definition blankCount :: "jsstring \<Rightarrow> nat" where
  "blankCount pre = length (filter (\<lambda>f. f = blankFrag) (butlast (fragments pre)))"

definition ownConnector :: "jsstring \<Rightarrow> jsstring" where
  "ownConnector pre = last (fragments pre)"

text \<open>
  Sessions of the concrete runs. \<open>demoSelf\<close> names itself as its parent; \<open>demoCycle\<close>
  is a root \<open>/s/r\<close> and two sessions \<open>/s/a\<close> and \<open>/s/b\<close> that name each other;
  \<open>demoFamily\<close> is a root \<open>/a\<close> with its child \<open>/b\<close> and a later modified root
  \<open>/c\<close>.
\<close>

definition demoSelf :: SessionWithParent where
  "demoSelf = demoSession ''/s/a'' 1 1 (Some (JStr (str ''/s/a'')))"

definition demoCycle :: "SessionWithParent list" where
  "demoCycle =
     [demoSession ''/s/r'' 1 1 None,
      demoSession ''/s/a'' 2 2 (Some (JStr (str ''/s/b''))),
      demoSession ''/s/b'' 3 3 (Some (JStr (str ''/s/a'')))]"

definition demoFamily :: "SessionWithParent list" where
  "demoFamily =
     [demoSession ''/a'' 10 10 None,
      demoSession ''/b'' 11 11 (Some (JStr (str ''/a''))),
      demoSession ''/c'' 5 20 None]"




text \<open>
  A forest for the concrete run of the prefixes: a root with two children, the first of
  which has a child of its own.
\<close>

definition demoDeep :: "SessionTreeNode list" where
  "demoDeep =
     [SessionTreeNode (demoSession ''/r'' 1 1 None)
        [SessionTreeNode (demoSession ''/x'' 2 2 (Some (JStr (str ''/r''))))
           [SessionTreeNode (demoSession ''/g'' 4 4 (Some (JStr (str ''/x'')))) [] 2] 1,
         SessionTreeNode (demoSession ''/y'' 3 3 (Some (JStr (str ''/r'')))) [] 1] 0]"

section \<open>Properties\<close>

subsection \<open>Scrolling\<close>

lemma ensureVisible_fields:
  "selectedIndex (ensureVisible st) = selectedIndex st"
  "maxVisibleLines (ensureVisible st) = maxVisibleLines st"
  "filteredNodes (ensureVisible st) = filteredNodes st"
  "flatNodes (ensureVisible st) = flatNodes st"
  "searchInput (ensureVisible st) = searchInput st"
  "searchMode (ensureVisible st) = searchMode st"
  by (simp_all add: ensureVisible_def)

lemma ensureVisible_visibleAt:
  "0 < maxVisibleLines st \<Longrightarrow>
   visibleAt (scrollOffset (ensureVisible st)) (maxVisibleLines st) (selectedIndex st)"
  by (auto simp: ensureVisible_def visibleAt_def)

lemma ensureVisible_minimal:
  "visibleAt off (maxVisibleLines st) (selectedIndex st) \<Longrightarrow>
   \<bar>scrollOffset (ensureVisible st) - scrollOffset st\<bar> \<le> \<bar>off - scrollOffset st\<bar>"
  by (auto simp: ensureVisible_def visibleAt_def)

lemma ensureVisible_keeps:
  "visibleAt (scrollOffset st) (maxVisibleLines st) (selectedIndex st) \<Longrightarrow> ensureVisible st = st"
  by (auto simp: ensureVisible_def visibleAt_def)

text \<open>
  C6. In browsing mode, from a state whose window shows the selected row, an up or down
  key (arrow, \<open>k\<close>, \<open>j\<close>) leads to a state whose window, of the same size, shows the
  selected row again; the scroll offset moves no further than any offset that shows the
  new selection would, and it stays where it is when the old window already shows the new
  selection.
\<close>

theorem move_keeps_selection_visible:
  assumes browsing: "\<not> searchMode st"
    and visible: "visibleAt (scrollOffset st) (maxVisibleLines st) (selectedIndex st)"
    and move: "isUpDown mk data"
  shows "visibleAt (scrollOffset (fst (handleInput mk typed lower data st))) (maxVisibleLines st)
           (selectedIndex (fst (handleInput mk typed lower data st)))
       \<and> maxVisibleLines (fst (handleInput mk typed lower data st)) = maxVisibleLines st
       \<and> (\<forall>off. visibleAt off (maxVisibleLines st) (selectedIndex (fst (handleInput mk typed lower data st)))
             \<longrightarrow> \<bar>scrollOffset (fst (handleInput mk typed lower data st)) - scrollOffset st\<bar>
                  \<le> \<bar>off - scrollOffset st\<bar>)
       \<and> (visibleAt (scrollOffset st) (maxVisibleLines st)
              (selectedIndex (fst (handleInput mk typed lower data st)))
            \<longrightarrow> scrollOffset (fst (handleInput mk typed lower data st)) = scrollOffset st)"
proof -
  from visible have pos: "0 < maxVisibleLines st" by (simp add: visibleAt_def)
  let ?up = "st\<lparr>selectedIndex := selectedIndex st - 1\<rparr>"
  let ?down = "st\<lparr>selectedIndex := selectedIndex st + 1\<rparr>"
  consider (stay) "handleInput mk typed lower data st = (st, None)"
    | (up) "handleInput mk typed lower data st = (ensureVisible ?up, None)"
    | (down) "handleInput mk typed lower data st = (ensureVisible ?down, None)"
    using browsing move unfolding handleInput_def isUpDown_def
    by (cases "mk data KeyUp \<or> mk data (KeyLit (str ''k''))";
        cases "0 < selectedIndex st";
        cases "selectedIndex st < int (length (filteredNodes st)) - 1") auto
  then show ?thesis
  proof cases
    case stay
    with visible show ?thesis by (auto simp: visibleAt_def)
  next
    case up
    show ?thesis
      using ensureVisible_visibleAt[of ?up] ensureVisible_minimal[of _ ?up]
        ensureVisible_keeps[of ?up] pos
      by (simp add: up ensureVisible_fields)
  next
    case down
    show ?thesis
      using ensureVisible_visibleAt[of ?down] ensureVisible_minimal[of _ ?down]
        ensureVisible_keeps[of ?down] pos
      by (simp add: down ensureVisible_fields)
  qed
qed

theorem move_keeps_selection_visible_witness:
  "\<not> searchMode (demoSelector (replicate 8 (demoEntry ''/s/a'')) 4 0 5)
   \<and> visibleAt 0 5 4
   \<and> isUpDown demoKeys [27, 91, 66]
   \<and> selectedIndex (fst (handleInput demoKeys demoTyped asciiLower [27, 91, 66]
        (demoSelector (replicate 8 (demoEntry ''/s/a'')) 4 0 5))) = 5
   \<and> scrollOffset (fst (handleInput demoKeys demoTyped asciiLower [27, 91, 66]
        (demoSelector (replicate 8 (demoEntry ''/s/a'')) 4 0 5))) = 1
   \<and> visibleAt 1 5 5"
proof -
  let ?st = "demoSelector (replicate 8 (demoEntry ''/s/a'')) 4 0 5"
  have b: "\<not> searchMode ?st" by (simp add: demoSelector_def)
  have v: "visibleAt (scrollOffset ?st) (maxVisibleLines ?st) (selectedIndex ?st)"
    by (simp add: demoSelector_def visibleAt_def)
  have m: "isUpDown demoKeys [27, 91, 66]" by (simp add: isUpDown_def)
  have sel: "selectedIndex (fst (handleInput demoKeys demoTyped asciiLower [27, 91, 66] ?st)) = 5"
    by (simp add: handleInput_def demoSelector_def ensureVisible_def str_def)
  have off: "scrollOffset (fst (handleInput demoKeys demoTyped asciiLower [27, 91, 66] ?st)) = 1"
    by (simp add: handleInput_def demoSelector_def ensureVisible_def str_def)
  from move_keeps_selection_visible[OF b v m, of demoTyped asciiLower]
  have "visibleAt (scrollOffset (fst (handleInput demoKeys demoTyped asciiLower [27, 91, 66] ?st)))
          (maxVisibleLines ?st) (selectedIndex (fst (handleInput demoKeys demoTyped asciiLower [27, 91, 66] ?st)))"
    by blast
  then have "visibleAt 1 5 5" by (simp add: sel off) (simp add: demoSelector_def)
  with b m sel off show ?thesis by (simp add: visibleAt_def)
qed

subsection \<open>The filter\<close>

lemma startsWith_iff: "startsWith t q \<longleftrightarrow> (\<exists>b. t = q @ b)"
  by (induction t q rule: startsWith.induct) auto

lemma includesStr_iff: "includesStr t q \<longleftrightarrow> (\<exists>a b. t = a @ q @ b)"
proof (induction t)
  case Nil
  then show ?case by simp
next
  case (Cons c cs)
  show ?case
  proof
    assume "includesStr (c # cs) q"
    then consider "startsWith (c # cs) q" | "includesStr cs q" by auto
    then show "\<exists>a b. c # cs = a @ q @ b"
    proof cases
      case 1
      then obtain b where "c # cs = q @ b" by (auto simp: startsWith_iff)
      then have "c # cs = [] @ q @ b" by simp
      then show ?thesis by blast
    next
      case 2
      with Cons.IH obtain a b where "cs = a @ q @ b" by blast
      then have "c # cs = (c # a) @ q @ b" by simp
      then show ?thesis by blast
    qed
  next
    assume "\<exists>a b. c # cs = a @ q @ b"
    then obtain a b where ab: "c # cs = a @ q @ b" by blast
    show "includesStr (c # cs) q"
    proof (cases a)
      case Nil
      with ab have "startsWith (c # cs) q" by (auto simp: startsWith_iff)
      then show ?thesis by simp
    next
      case (Cons a0 as)
      with ab have "cs = as @ q @ b" by simp
      with Cons.IH have "includesStr cs q" by blast
      then show ?thesis by simp
    qed
  qed
qed

lemma includesStr_empty: "includesStr t []"
  by (induction t) simp_all

lemma trim_white: "list_all isWhite q \<Longrightarrow> trim (toLowerCase lower q) = []"
proof -
  assume w: "list_all isWhite q"
  then have "dropWhile isWhite q = []"
    by (induction q) simp_all
  then have "trim q = []"
    by (simp only: trim_def rev.simps dropWhile.simps)
  with w show ?thesis by (simp add: toLowerCase_def)
qed

lemma filterNodes_filter: "filterNodes lower nodes val = filter (\<lambda>node. containsTrimmed lower node val) nodes"
  by (simp add: filterNodes_def containsTrimmed_def Let_def includesStr_empty)

text \<open>
  C4, as the code has it. Whatever the mapping \<open>lower\<close> of \<open>toLowerCase\<close> is, the
  filter returns the entries, in their order and as they are, whose match text (the
  non-empty ones of first message, name, working directory and path, joined by single
  spaces and lowercased) contains the lowercased query with its leading and trailing
  whitespace removed; containing means occurring at some position. A query of whitespace
  only, the empty one included, returns the list as it is.
\<close>

theorem filter_selects_trimmed_matches:
  "filterNodes lower nodes val = filter (\<lambda>node. containsTrimmed lower node val) nodes
   \<and> (\<forall>node. containsTrimmed lower node val
         \<longleftrightarrow> (\<exists>a b. matchText lower node = a @ trim (toLowerCase lower val) @ b))
   \<and> (list_all isWhite val \<longrightarrow> filterNodes lower nodes val = nodes)"
proof (intro conjI allI impI)
  show "filterNodes lower nodes val = filter (\<lambda>node. containsTrimmed lower node val) nodes"
    by (rule filterNodes_filter)
  show "containsTrimmed lower node val \<longleftrightarrow> (\<exists>a b. matchText lower node = a @ trim (toLowerCase lower val) @ b)"
    for node by (simp add: containsTrimmed_def includesStr_iff)
  show "filterNodes lower nodes val = nodes" if "list_all isWhite val"
    using trim_white[OF that] by (simp add: filterNodes_def)
qed

theorem filter_selects_trimmed_matches_witness:
  "list_all isWhite [32, 9]
   \<and> filterNodes asciiLower [demoEntry ''/s/a'', demoEntry ''/s/b''] [32, 9]
       = [demoEntry ''/s/a'', demoEntry ''/s/b'']
   \<and> filterNodes asciiLower [demoEntry ''/s/a'', demoEntry ''/s/b''] (str ''S/B '') = [demoEntry ''/s/b'']
   \<and> filterNodes latin1Lower [demoEntry ''/s/a'', demoAccented] [233, 109, 105, 108, 101]
       = [demoAccented]"
proof -
  have w: "list_all isWhite [32, 9]" by (simp add: isWhite_def)
  have a: "containsTrimmed asciiLower (demoEntry ''/s/b'') (str ''S/B '')"
    by (simp add: containsTrimmed_def matchText_def demoEntry_def demoSession_def str_def
        toLowerCase_def asciiLower_def lowerUnit_def trim_def isWhite_def)
  have b: "\<not> containsTrimmed asciiLower (demoEntry ''/s/a'') (str ''S/B '')"
    by (simp add: containsTrimmed_def matchText_def demoEntry_def demoSession_def str_def
        toLowerCase_def asciiLower_def lowerUnit_def trim_def isWhite_def)
  have c: "containsTrimmed latin1Lower demoAccented [233, 109, 105, 108, 101]"
    by (simp add: containsTrimmed_def matchText_def demoAccented_def demoSession_def str_def
        toLowerCase_def latin1Lower_def latin1Unit_def trim_def isWhite_def)
  have d: "\<not> containsTrimmed latin1Lower (demoEntry ''/s/a'') [233, 109, 105, 108, 101]"
    by (simp add: containsTrimmed_def matchText_def demoEntry_def demoSession_def str_def
        toLowerCase_def latin1Lower_def latin1Unit_def trim_def isWhite_def)
  from filter_selects_trimmed_matches[of asciiLower "[demoEntry ''/s/a'', demoEntry ''/s/b'']" "[32, 9]"] w
  have 1: "filterNodes asciiLower [demoEntry ''/s/a'', demoEntry ''/s/b''] [32, 9]
          = [demoEntry ''/s/a'', demoEntry ''/s/b'']" by blast
  from filter_selects_trimmed_matches[of asciiLower "[demoEntry ''/s/a'', demoEntry ''/s/b'']" "str ''S/B ''"]
  have "filterNodes asciiLower [demoEntry ''/s/a'', demoEntry ''/s/b''] (str ''S/B '')
          = filter (\<lambda>node. containsTrimmed asciiLower node (str ''S/B '')) [demoEntry ''/s/a'', demoEntry ''/s/b'']"
    by blast
  with a b have 2: "filterNodes asciiLower [demoEntry ''/s/a'', demoEntry ''/s/b''] (str ''S/B '')
          = [demoEntry ''/s/b'']" by simp
  from filter_selects_trimmed_matches[of latin1Lower "[demoEntry ''/s/a'', demoAccented]"
      "[233, 109, 105, 108, 101]"]
  have "filterNodes latin1Lower [demoEntry ''/s/a'', demoAccented] [233, 109, 105, 108, 101]
          = filter (\<lambda>node. containsTrimmed latin1Lower node [233, 109, 105, 108, 101])
              [demoEntry ''/s/a'', demoAccented]"
    by blast
  with c d have 3: "filterNodes latin1Lower [demoEntry ''/s/a'', demoAccented] [233, 109, 105, 108, 101]
          = [demoAccented]" by simp
  from w 1 2 3 show ?thesis by (intro conjI)
qed

text \<open>
  The query \<open>S/B\<close> followed by a space: the filter keeps the entry of \<open>/s/b\<close>, whose
  match text \<open>hello /w /s/b\<close> does not contain the lowercased query, space included.
\<close>

theorem filter_untrimmed_counterexample:
  "filterNodes asciiLower [demoEntry ''/s/b''] (str ''S/B '') = [demoEntry ''/s/b'']
   \<and> \<not> containsQuery asciiLower (demoEntry ''/s/b'') (str ''S/B '')
   \<and> matchingEntries asciiLower [demoEntry ''/s/b''] (str ''S/B '') = []"
  by (simp add: filterNodes_def matchingEntries_def containsQuery_def matchText_def
      demoEntry_def demoSession_def str_def toLowerCase_def asciiLower_def lowerUnit_def trim_def isWhite_def)

text \<open>
  C9. Filtering the filtered list again with the same query returns it unchanged, and the
  empty query returns the list unchanged. The method \<open>applyFilter\<close> itself, which always
  filters \<open>flatNodes\<close>, leaves the state it produced as it is when it runs again.
\<close>

theorem filter_idempotent:
  "filterNodes lower (filterNodes lower nodes val) val = filterNodes lower nodes val
   \<and> filterNodes lower nodes [] = nodes
   \<and> applyFilter lower (applyFilter lower st) = applyFilter lower st"
proof -
  have 1: "filterNodes lower (filterNodes lower nodes val) val = filterNodes lower nodes val"
    by (simp add: filterNodes_filter)
  have 2: "filterNodes lower nodes [] = nodes"
    by (simp add: filterNodes_def trim_def toLowerCase_def)
  have 3: "applyFilter lower (applyFilter lower st) = applyFilter lower st"
    by (simp add: applyFilter_def Let_def ensureVisible_fields)
       (simp add: ensureVisible_def)
  from 1 2 3 show ?thesis by simp
qed

subsection \<open>Reading the headers\<close>

lemma getSessionHeader_settles: "evs \<noteq> [] \<Longrightarrow> \<exists>r. getSessionHeader parse evs = Some r"
  by (cases evs; cases "hd evs") auto

lemma getSessionHeader_error:
  "getSessionHeader parse (RlError # evs) = Some None"
  "getSessionHeader parse (StreamError # evs) = Some None"
  "parse line = None \<Longrightarrow> getSessionHeader parse (Line line # evs) = Some None"
  by (simp_all add: onLine_def)

text \<open>
  C7. A read that delivers no line and no error never settles the promise: the file of
  zero bytes. (Every read that delivers an event does settle it, with \<^verbatim>\<open>null\<close> on
  an error or a line that does not parse: \<open>getSessionHeader_settles\<close>,
  \<open>getSessionHeader_error\<close>.) The load that awaits it stops there, before its first
  notification.
\<close>

theorem getSessionHeader_empty_file_pending:
  "getSessionHeader parse [] = None
   \<and> demoReads (path (demoInfo ''/s/empty'')) = []
   \<and> stalled (loadSessionsWithParents demoParse demoReads [demoInfo ''/s/empty''])
   \<and> results (loadSessionsWithParents demoParse demoReads [demoInfo ''/s/empty'']) = []"
  by (simp add: loadSessionsWithParents_def loadStep_def demoReads_def demoInfo_def)

lemma loadStep_fold_settled:
  assumes "\<forall>s\<in>set xs. reads (path s) \<noteq> []" and "\<not> stalled st"
  shows "notified (fold (loadStep parse reads n) xs st)
           = notified st @ map (\<lambda>i. (i, n)) [Suc (loaded st)..<Suc (loaded st + length xs)]
       \<and> loaded (fold (loadStep parse reads n) xs st) = loaded st + length xs
       \<and> length (results (fold (loadStep parse reads n) xs st)) = length (results st) + length xs
       \<and> \<not> stalled (fold (loadStep parse reads n) xs st)"
  using assms
proof (induction xs arbitrary: st)
  case Nil
  then show ?case by simp
next
  case (Cons x xs)
  from Cons.prems obtain r where r: "getSessionHeader parse (reads (path x)) = Some r"
    using getSessionHeader_settles[of "reads (path x)" parse] by auto
  let ?st = "loadStep parse reads n x st"
  from r Cons.prems(2) have st: "\<not> stalled ?st" "loaded ?st = Suc (loaded st)"
    "notified ?st = notified st @ [(Suc (loaded st), n)]"
    "length (results ?st) = Suc (length (results st))"
    by (simp_all add: loadStep_def)
  from Cons.prems(1) have "\<forall>s\<in>set xs. reads (path s) \<noteq> []" by simp
  from Cons.IH[OF this st(1)] show ?case
    by (simp add: st upt_conv_Cons del: upt_Suc)
qed

lemma load_settled:
  assumes "\<forall>s\<in>set sessions. reads (path s) \<noteq> []"
  shows "notified (loadSessionsWithParents parse reads sessions)
           = map (\<lambda>i. (i, length sessions)) [1..<Suc (length sessions)]
       \<and> length (results (loadSessionsWithParents parse reads sessions)) = length sessions
       \<and> \<not> stalled (loadSessionsWithParents parse reads sessions)"
  using loadStep_fold_settled[OF assms, of "\<lparr>results = [], loaded = 0, notified = [], stalled = False\<rparr>"
      parse "length sessions"]
  by (simp add: loadSessionsWithParents_def)

text \<open>
  C8. With two sessions of which the second has a file of zero bytes, the notifications
  are the single pair (1, 2) and the load never goes on: the last loaded count is not
  the total. (When every read settles the notifications are (1, n), ..., (n, n):
  \<open>load_settled\<close>.)
\<close>

theorem load_progress_stops_short:
  "notified (loadSessionsWithParents demoParse demoReads [demoInfo ''/s/a'', demoInfo ''/s/empty''])
     = [(1, 2)]
   \<and> stalled (loadSessionsWithParents demoParse demoReads [demoInfo ''/s/a'', demoInfo ''/s/empty''])"
  by (simp add: loadSessionsWithParents_def loadStep_def demoReads_def demoInfo_def str_def)

subsection \<open>The selected index\<close>

text \<open>
  From a non-negative index the bounds are kept: by \<open>applyFilter\<close> whenever the list
  it leaves is non-empty, and by every input in browsing mode from an index within a
  non-empty list, for a window of no negative size.
\<close>

lemma applyFilter_index:
  assumes "0 \<le> selectedIndex st" and "filteredNodes (applyFilter lower st) \<noteq> []"
  shows "0 \<le> selectedIndex (applyFilter lower st)
       \<and> selectedIndex (applyFilter lower st) < int (length (filteredNodes (applyFilter lower st)))"
  using assms by (auto simp: applyFilter_def Let_def ensureVisible_fields)

lemma browsing_index:
  assumes "\<not> searchMode st" and "0 \<le> selectedIndex st"
    and "selectedIndex st < int (length (filteredNodes st))" and "0 \<le> maxVisibleLines st"
  shows "0 \<le> selectedIndex (fst (handleInput mk typed lower data st))
       \<and> selectedIndex (fst (handleInput mk typed lower data st))
           < int (length (filteredNodes (fst (handleInput mk typed lower data st))))"
  using assms by (auto simp: handleInput_def ensureVisible_fields)

text \<open>
  C10. One entry; the inputs are \<open>/\<close>, \<open>z\<close> (no entry matches, the filtered list is
  empty), Enter (back to browsing, the filter kept), End (the index becomes
  \<open>length - 1 = -1\<close>), \<open>/\<close>, Escape (the filter is cleared and applied). The filtered
  list has its one entry again, and the selected index is -1: \<open>applyFilter\<close> takes the
  minimum of the index and a bound that is at least 0, which keeps a negative index.
  Enter then selects nothing. (\<open>applyFilter_index\<close> and \<open>browsing_index\<close> need the
  index before to be non-negative, which End and PageDown on an empty list do not keep.)
\<close>

theorem selected_index_negative_after_end_on_empty:
  "selectedIndex (runInputs demoKeys demoTyped asciiLower
       [str ''/'', str ''z'', [13], [27, 91, 70], str ''/'', [27]]
       (newSelector [SessionTreeNode (demoSession ''/s/a'' 1 1 None) [] 0] 5 False None)) = - 1
   \<and> filteredNodes (runInputs demoKeys demoTyped asciiLower
       [str ''/'', str ''z'', [13], [27, 91, 70], str ''/'', [27]]
       (newSelector [SessionTreeNode (demoSession ''/s/a'' 1 1 None) [] 0] 5 False None))
       = [demoEntry ''/s/a'']
   \<and> \<not> searchMode (runInputs demoKeys demoTyped asciiLower
       [str ''/'', str ''z'', [13], [27, 91, 70], str ''/'', [27]]
       (newSelector [SessionTreeNode (demoSession ''/s/a'' 1 1 None) [] 0] 5 False None))
   \<and> snd (handleInput demoKeys demoTyped asciiLower [13] (runInputs demoKeys demoTyped asciiLower
       [str ''/'', str ''z'', [13], [27, 91, 70], str ''/'', [27]]
       (newSelector [SessionTreeNode (demoSession ''/s/a'' 1 1 None) [] 0] 5 False None))) = None"
proof -
  let ?e = "demoEntry ''/s/a''"
  let ?s0 = "newSelector [SessionTreeNode (demoSession ''/s/a'' 1 1 None) [] 0] 5 False None"
  have s0: "?s0 = demoSelector [?e] 0 0 5"
    by (simp add: newSelector_def flattenTree_def flatten.simps[of "SessionTreeNode s [] d" for s d]
        demoSelector_def demoEntry_def)
  have nomatch: "filterNodes asciiLower [?e] (str ''z'') = []"
    by (simp add: filterNodes_def matchText_def demoEntry_def demoSession_def str_def
        toLowerCase_def asciiLower_def lowerUnit_def trim_def isWhite_def)
  have clear: "filterNodes asciiLower [?e] [] = [?e]"
    by (simp add: filterNodes_def trim_def toLowerCase_def)
  let ?s1 = "(demoSelector [?e] 0 0 5)\<lparr>searchMode := True\<rparr>"
  have 1: "fst (handleInput demoKeys demoTyped asciiLower (str ''/'') (demoSelector [?e] 0 0 5)) = ?s1"
    by (simp add: handleInput_def demoSelector_def str_def)
  let ?s2 = "?s1\<lparr>searchInput := str ''z'', filteredNodes := []\<rparr>"
  have 2: "fst (handleInput demoKeys demoTyped asciiLower (str ''z'') ?s1) = ?s2"
    using nomatch
    by (simp add: handleInput_def demoSelector_def applyFilter_def ensureVisible_def demoTyped_def)
       (simp add: str_def)
  let ?s3 = "?s2\<lparr>searchMode := False\<rparr>"
  have 3: "fst (handleInput demoKeys demoTyped asciiLower [13] ?s2) = ?s3"
    by (simp add: handleInput_def demoSelector_def)
  let ?s4 = "?s3\<lparr>selectedIndex := - 1, scrollOffset := - 1\<rparr>"
  have 4: "fst (handleInput demoKeys demoTyped asciiLower [27, 91, 70] ?s3) = ?s4"
    by (simp add: handleInput_def demoSelector_def ensureVisible_def str_def)
  let ?s5 = "?s4\<lparr>searchMode := True\<rparr>"
  have 5: "fst (handleInput demoKeys demoTyped asciiLower (str ''/'') ?s4) = ?s5"
    by (simp add: handleInput_def demoSelector_def str_def)
  let ?s6 = "?s5\<lparr>searchMode := False, searchInput := [], filteredNodes := [?e]\<rparr>"
  have 6: "fst (handleInput demoKeys demoTyped asciiLower [27] ?s5) = ?s6"
    using clear
    by (simp add: handleInput_def demoSelector_def applyFilter_def ensureVisible_def)
  have run: "runInputs demoKeys demoTyped asciiLower
       [str ''/'', str ''z'', [13], [27, 91, 70], str ''/'', [27]] ?s0 = ?s6"
    by (simp only: runInputs_def fold_simps s0 1 2 3 4 5 6 comp_apply id_apply)
  have 7: "snd (handleInput demoKeys demoTyped asciiLower [13] ?s6) = None"
    by (simp add: handleInput_def demoSelector_def str_def)
  show ?thesis
    by (simp only: run 7) (simp add: demoSelector_def)
qed

subsection \<open>The index pass of buildSessionTree\<close>

lemma byPath_fold_Some:
  "fold (\<lambda>s m. m(JStr (path s) \<mapsto> s)) xs m k = Some s \<Longrightarrow>
   (s \<in> set xs \<and> JStr (path s) = k) \<or> m k = Some s"
  by (induction xs arbitrary: m) (fastforce split: if_splits)+

lemma byPath_fold_other:
  "k \<notin> (\<lambda>s. JStr (path s)) ` set xs \<Longrightarrow> fold (\<lambda>s m. m(JStr (path s) \<mapsto> s)) xs m k = m k"
  by (induction xs arbitrary: m) auto

lemma byPath_fold_distinct:
  "distinct (map path xs) \<Longrightarrow> s \<in> set xs \<Longrightarrow>
   fold (\<lambda>s m. m(JStr (path s) \<mapsto> s)) xs m (JStr (path s)) = Some s"
proof (induction xs arbitrary: m)
  case Nil
  then show ?case by simp
next
  case (Cons x xs)
  show ?case
  proof (cases "s \<in> set xs")
    case True
    with Cons show ?thesis by simp
  next
    case False
    with Cons.prems have sx: "s = x" and "path x \<notin> path ` set xs" by auto
    then have "JStr (path x) \<notin> (\<lambda>s. JStr (path s)) ` set xs" by auto
    from byPath_fold_other[OF this, of "m(JStr (path x) \<mapsto> x)"]
    have "fold (\<lambda>s m. m(JStr (path s) \<mapsto> s)) xs (m(JStr (path x) \<mapsto> x)) (JStr (path x))
            = Some x" by (simp del: fun_upd_apply) simp
    with sx show ?thesis by (simp only: fold_simps)
  qed
qed

lemma byPathOf_Some: "byPathOf xs k = Some s \<Longrightarrow> s \<in> set xs \<and> k = JStr (path s)"
  using byPath_fold_Some[of xs Map.empty k s] by (auto simp: byPathOf_def)

lemma byPathOf_distinct:
  "distinct (map path xs) \<Longrightarrow> s \<in> set xs \<Longrightarrow> byPathOf xs (JStr (path s)) = Some s"
  by (simp add: byPathOf_def byPath_fold_distinct)

lemma parentOf_Some:
  "parentOf xs s = Some q \<Longrightarrow> q \<in> set xs \<and> parentSession s = Some (JStr (path q)) \<and> path q \<noteq> []"
  by (auto simp: parentOf_def split: option.splits if_splits dest: byPathOf_Some)

lemma parentOf_of_ref:
  assumes "distinct (map path xs)" and "q \<in> set xs" and "path q \<noteq> []"
    and "parentSession s = Some (JStr (path q))"
  shows "parentOf xs s = Some q"
  using assms by (simp add: parentOf_def byPathOf_distinct)

lemma parentOf_None_iff:
  "parentOf xs s = None \<longleftrightarrow>
   (case parentSession s of None \<Rightarrow> True | Some p \<Rightarrow> \<not> (truthy p \<and> byPathOf xs p \<noteq> None))"
  by (auto simp: parentOf_def split: option.splits)

lemma indexStep_fold:
  "fold (indexStep (byPathOf xs)) ys (co, rs) = (co', rs') \<Longrightarrow>
   rs' = rs @ filter (\<lambda>s. parentOf xs s = None) ys
   \<and> (\<forall>k. bucket co' k = bucket co k
          @ filter (\<lambda>s. parentOf xs s \<noteq> None \<and> parentSession s = Some k) ys)"
proof (induction ys arbitrary: co rs)
  case Nil
  then show ?case by simp
next
  case (Cons y ys)
  obtain co1 rs1 where step: "indexStep (byPathOf xs) y (co, rs) = (co1, rs1)"
    by (cases "indexStep (byPathOf xs) y (co, rs)")
  with Cons.prems have "fold (indexStep (byPathOf xs)) ys (co1, rs1) = (co', rs')" by simp
  from Cons.IH[OF this]
  have rs': "rs' = rs1 @ filter (\<lambda>s. parentOf xs s = None) ys"
    and co': "\<And>k. bucket co' k = bucket co1 k
          @ filter (\<lambda>s. parentOf xs s \<noteq> None \<and> parentSession s = Some k) ys"
    by auto
  show ?case
  proof (cases "parentOf xs y")
    case None
    with step have "co1 = co" "rs1 = rs @ [y]"
      by (auto simp: indexStep_def parentOf_None_iff split: option.splits if_splits)
    with rs' co' None show ?thesis by simp
  next
    case (Some q)
    then obtain p where p: "parentSession y = Some p" "truthy p" "byPathOf xs p \<noteq> None"
      by (auto simp: parentOf_def split: option.splits if_splits)
    with step have "co1 = co(p \<mapsto> bucket co p @ [y])" "rs1 = rs"
      by (auto simp: indexStep_def)
    with rs' co' Some p show ?thesis by (auto simp: bucket_def)
  qed
qed

lemma indexSessions_roots: "snd (indexSessions xs) = filter (\<lambda>s. parentOf xs s = None) xs"
  using indexStep_fold[of xs xs Map.empty "[]" "fst (indexSessions xs)" "snd (indexSessions xs)"]
  by (simp add: indexSessions_def)

lemma indexSessions_bucket:
  "bucket (fst (indexSessions xs)) k
     = filter (\<lambda>s. parentOf xs s \<noteq> None \<and> parentSession s = Some k) xs"
  using indexStep_fold[of xs xs Map.empty "[]" "fst (indexSessions xs)" "snd (indexSessions xs)"]
  by (simp add: indexSessions_def bucket_def)

lemma distinct_sessions: "distinct (map path xs) \<Longrightarrow> distinct xs"
  by (simp add: distinct_map)

lemma indexSessions_children:
  assumes "distinct (map path xs)" and "q \<in> set xs"
  shows "bucket (fst (indexSessions xs)) (JStr (path q)) = filter (\<lambda>s. parentOf xs s = Some q) xs"
proof -
  have "(parentOf xs s \<noteq> None \<and> parentSession s = Some (JStr (path q))) \<longleftrightarrow> parentOf xs s = Some q"
    for s
  proof
    assume a: "parentOf xs s \<noteq> None \<and> parentSession s = Some (JStr (path q))"
    then obtain r where r: "parentOf xs s = Some r" by auto
    from parentOf_Some[OF r] a have "path r = path q" "r \<in> set xs" by auto
    with assms have "r = q" by (meson distinct_map inj_onD)
    with r show "parentOf xs s = Some q" by simp
  next
    assume "parentOf xs s = Some q"
    with parentOf_Some[OF this] show "parentOf xs s \<noteq> None \<and> parentSession s = Some (JStr (path q))"
      by simp
  qed
  then show ?thesis by (simp add: indexSessions_bucket)
qed

subsection \<open>Parent chains and levels\<close>

lemma atLevel_0: "atLevel xs 0 s \<longleftrightarrow> parentOf xs s = None"
  by (simp add: atLevel_def)

lemma atLevel_Suc: "atLevel xs (Suc k) s \<longleftrightarrow> (\<exists>q. parentOf xs s = Some q \<and> atLevel xs k q)"
  by (auto simp: atLevel_def split: option.splits)

lemma atLevel_unique: "atLevel xs k s \<Longrightarrow> atLevel xs k' s \<Longrightarrow> k = k'"
proof (induction k arbitrary: k' s)
  case 0
  then show ?case by (cases k') (auto simp: atLevel_0 atLevel_Suc)
next
  case (Suc k)
  then show ?case by (cases k') (auto simp: atLevel_0 atLevel_Suc)
qed

lemma ancestor_add:
  "ancestor xs (i + j) s = (case ancestor xs i s of None \<Rightarrow> None | Some q \<Rightarrow> ancestor xs j q)"
  by (induction i arbitrary: s) (auto split: option.splits)

lemma ancestor_Suc_end:
  "ancestor xs (Suc j) s = (case ancestor xs j s of None \<Rightarrow> None | Some q \<Rightarrow> parentOf xs q)"
  using ancestor_add[of xs j 1 s] by (auto split: option.splits)

lemma ancestor_in: "s \<in> set xs \<Longrightarrow> ancestor xs j s = Some q \<Longrightarrow> q \<in> set xs"
  by (induction j arbitrary: s) (auto split: option.splits dest: parentOf_Some)

lemma atLevel_ancestor:
  "atLevel xs k s \<Longrightarrow> ancestor xs j s = Some q \<Longrightarrow> j \<le> k \<and> atLevel xs (k - j) q"
proof (induction j arbitrary: s k)
  case 0
  then show ?case by simp
next
  case (Suc j)
  from Suc.prems(2) obtain p where p: "parentOf xs s = Some p" "ancestor xs j p = Some q"
    by (auto split: option.splits)
  with Suc.prems(1) obtain k' where k: "k = Suc k'" "atLevel xs k' p"
    by (cases k) (auto simp: atLevel_0 atLevel_Suc)
  from Suc.IH[OF k(2) p(2)] k(1) show ?case by simp
qed

lemma atLevel_descend: "atLevel xs m c \<Longrightarrow> ancestor xs i x = Some c \<Longrightarrow> atLevel xs (m + i) x"
proof (induction i arbitrary: x)
  case 0
  then show ?case by simp
next
  case (Suc i)
  from Suc.prems(2) obtain p where p: "parentOf xs x = Some p" "ancestor xs i p = Some c"
    by (auto split: option.splits)
  from Suc.IH[OF Suc.prems(1) p(2)] p(1) show ?case by (simp add: atLevel_Suc)
qed

lemma atLevel_no_cycle: "atLevel xs k s \<Longrightarrow> ancestor xs j s = Some s \<Longrightarrow> j = 0"
proof -
  assume a: "atLevel xs k s" and c: "ancestor xs j s = Some s"
  from atLevel_ancestor[OF a c] have j: "j \<le> k" and "atLevel xs (k - j) s" by auto
  from atLevel_unique[OF a this(2)] have "k = k - j" .
  with j show "j = 0" by arith
qed

lemma atLevel_ancestor_exists:
  assumes "atLevel xs k s" and "j \<le> k"
  shows "\<exists>q. ancestor xs j s = Some q"
proof -
  from assms(2) have "ancestor xs k s = ancestor xs (j + (k - j)) s" by simp
  also have "\<dots> = (case ancestor xs j s of None \<Rightarrow> None | Some q \<Rightarrow> ancestor xs (k - j) q)"
    by (rule ancestor_add)
  finally show ?thesis using assms(1) by (auto simp: atLevel_def split: option.splits)
qed

lemma atLevel_bound:
  assumes "s \<in> set xs" and "atLevel xs k s"
  shows "k < length xs"
proof -
  let ?h = "\<lambda>j. the (ancestor xs j s)"
  have anc: "ancestor xs j s = Some (?h j)" if "j \<le> k" for j
    using atLevel_ancestor_exists[OF assms(2) that] by auto
  have sub: "?h ` {..k} \<subseteq> set xs"
    using anc ancestor_in[OF assms(1)] by blast
  have "inj_on ?h {..k}"
  proof (rule inj_onI)
    fix i j assume ij: "i \<in> {..k}" "j \<in> {..k}" "?h i = ?h j"
    then have "atLevel xs (k - i) (?h i)" "atLevel xs (k - j) (?h i)"
      using atLevel_ancestor[OF assms(2) anc[of i]] atLevel_ancestor[OF assms(2) anc[of j]]
      by auto
    then have "k - i = k - j" by (rule atLevel_unique)
    with ij show "i = j" by simp
  qed
  then have "card {..k} \<le> card (set xs)"
    using sub by (meson List.finite_set card_inj_on_le)
  also have "\<dots> \<le> length xs" by (rule card_length)
  finally show ?thesis by simp
qed

lemma reachesRoot_iff: "s \<in> set xs \<Longrightarrow> reachesRoot xs s \<longleftrightarrow> (\<exists>k. atLevel xs k s)"
  using atLevel_bound by (auto simp: reachesRoot_def list_ex_iff)

lemma cycle_not_reachesRoot:
  assumes "ancestor xs (Suc j) s = Some s"
  shows "\<not> reachesRoot xs s" and "parentOf xs s \<noteq> None"
proof -
  show "\<not> reachesRoot xs s"
    using atLevel_no_cycle[OF _ assms] by (auto simp: reachesRoot_def list_ex_iff)
  show "parentOf xs s \<noteq> None"
    using assms by (auto split: option.splits)
qed

subsection \<open>buildNode returns\<close>

lemma those_map_Some:
  "(\<forall>x\<in>set ys. \<exists>t. g x = Some t) \<Longrightarrow> those (map g ys) = Some (map (\<lambda>x. the (g x)) ys)"
  by (induction ys) auto

lemma those_map_eq:
  "those (map g ys) = Some ts \<Longrightarrow> ts = map (\<lambda>x. the (g x)) ys \<and> (\<forall>x\<in>set ys. g x = Some (the (g x)))"
  by (induction ys arbitrary: ts) (auto split: option.splits)

lemma buildNode_Suc_eq:
  "buildNode (Suc f) co s d = Some t \<longleftrightarrow>
   (\<forall>c\<in>set (bucket co (JStr (path s))). \<exists>tc. buildNode f co c (d + 1) = Some tc)
   \<and> t = SessionTreeNode s
           (map (\<lambda>c. the (buildNode f co c (d + 1))) (sort_key created (bucket co (JStr (path s))))) d"
proof
  assume "buildNode (Suc f) co s d = Some t"
  then obtain ts where ts: "those (map (\<lambda>c. buildNode f co c (d + 1))
        (sort_key created (bucket co (JStr (path s))))) = Some ts" "t = SessionTreeNode s ts d"
    by (auto simp: Let_def)
  from those_map_eq[OF ts(1)] ts(2)
  show "(\<forall>c\<in>set (bucket co (JStr (path s))). \<exists>tc. buildNode f co c (d + 1) = Some tc)
   \<and> t = SessionTreeNode s
           (map (\<lambda>c. the (buildNode f co c (d + 1))) (sort_key created (bucket co (JStr (path s))))) d"
    by auto
next
  assume a: "(\<forall>c\<in>set (bucket co (JStr (path s))). \<exists>tc. buildNode f co c (d + 1) = Some tc)
   \<and> t = SessionTreeNode s
           (map (\<lambda>c. the (buildNode f co c (d + 1))) (sort_key created (bucket co (JStr (path s))))) d"
  then have "\<forall>c\<in>set (sort_key created (bucket co (JStr (path s)))).
      \<exists>tc. buildNode f co c (d + 1) = Some tc" by simp
  from those_map_Some[OF this] a show "buildNode (Suc f) co s d = Some t"
    by (simp add: Let_def)
qed

declare buildNode.simps(2) [simp del]

lemma buildNode_more_fuel: "buildNode f co s d = Some t \<Longrightarrow> buildNode (Suc f) co s d = Some t"
proof (induction f arbitrary: s d t)
  case 0
  then show ?case by simp
next
  case (Suc f)
  from Suc.prems have ch: "\<forall>c\<in>set (bucket co (JStr (path s))). \<exists>tc. buildNode f co c (d + 1) = Some tc"
    and t: "t = SessionTreeNode s
           (map (\<lambda>c. the (buildNode f co c (d + 1))) (sort_key created (bucket co (JStr (path s))))) d"
    unfolding buildNode_Suc_eq by blast+
  have same: "buildNode (Suc f) co c (d + 1) = Some (the (buildNode f co c (d + 1)))"
    if "c \<in> set (bucket co (JStr (path s)))" for c
    using ch that Suc.IH[of c "d + 1"] by fastforce
  have "map (\<lambda>c. the (buildNode (Suc f) co c (d + 1))) (sort_key created (bucket co (JStr (path s))))
      = map (\<lambda>c. the (buildNode f co c (d + 1))) (sort_key created (bucket co (JStr (path s))))"
    using same by (intro map_cong) auto
  with same t show ?case by (subst buildNode_Suc_eq) auto
qed

lemma buildNode_fuel_mono:
  assumes "f \<le> f'" and "buildNode f co s d = Some t"
  shows "buildNode f' co s d = Some t"
  using assms by (induction rule: dec_induct) (auto intro: buildNode_more_fuel)

lemma buildNode_returns:
  assumes dist: "distinct (map path xs)"
  shows "q \<in> set xs \<Longrightarrow> atLevel xs k q \<Longrightarrow> length xs \<le> k + f \<Longrightarrow>
         \<exists>t. buildNode f (fst (indexSessions xs)) q d = Some t"
proof (induction f arbitrary: q k d)
  case 0
  with atLevel_bound[of q xs k] show ?case by simp
next
  case (Suc f)
  have "\<exists>tc. buildNode f (fst (indexSessions xs)) c (d + 1) = Some tc"
    if "c \<in> set (bucket (fst (indexSessions xs)) (JStr (path q)))" for c
  proof -
    from that have c: "c \<in> set xs" "parentOf xs c = Some q"
      by (simp_all add: indexSessions_children[OF dist Suc.prems(1)])
    with Suc.prems(2) have "atLevel xs (Suc k) c" by (simp add: atLevel_Suc)
    from Suc.IH[OF c(1) this] Suc.prems(3) show ?thesis by simp
  qed
  then show ?case by (simp only: buildNode_Suc_eq) blast
qed

subsection \<open>The sessions of the flattened tree\<close>

lemma flatten_unfold:
  "flatten node d parentPrefixes is_last
     = \<lparr>flat_session = session node, flat_depth = d,
         prefix = (if d > 0 then concat parentPrefixes @ (if is_last then lastConn else branchConn)
                   else []),
         isLast = is_last, hasChildren = (length (children node) > 0)\<rparr>
       # concat (map (\<lambda>i. flatten (children node ! i) (d + 1)
                             (if d > 0 then parentPrefixes @ [if is_last then blankFrag else barFrag]
                              else parentPrefixes)
                             (Suc i = length (children node)))
                  [0..<length (children node)])"
  by (subst flatten.simps) (simp only: Let_def)

lemma flatten_sessions: "map flat_session (flatten t d pp l) = preorder t"
proof (induction t d pp l rule: flatten.induct)
  case (1 node d parentPrefixes is_last)
  let ?npp = "if 0 < d then parentPrefixes @ [if is_last then blankFrag else barFrag]
              else parentPrefixes"
  have "map flat_session (flatten (children node ! i) (d + 1) ?npp (Suc i = length (children node)))
          = preorder (children node ! i)"
    if "i \<in> set [0..<length (children node)]" for i
    using "1.IH"[OF refl refl that] .
  then have "concat (map (\<lambda>i. map flat_session
                 (flatten (children node ! i) (d + 1) ?npp (Suc i = length (children node))))
               [0..<length (children node)])
           = concat (map (\<lambda>i. preorder (children node ! i)) [0..<length (children node)])"
    by (intro arg_cong[where f = concat] map_cong) auto
  also have "\<dots> = concat (map preorder (map (\<lambda>i. children node ! i) [0..<length (children node)]))"
    by (simp add: comp_def)
  also have "\<dots> = concat (map preorder (children node))"
    by (simp only: map_nth)
  finally have below: "concat (map (\<lambda>i. map flat_session
                 (flatten (children node ! i) (d + 1) ?npp (Suc i = length (children node))))
               [0..<length (children node)]) = concat (map preorder (children node))" .
  have pre: "preorder node = session node # concat (map preorder (children node))"
    by (cases node) simp
  have "map flat_session (flatten node d parentPrefixes is_last)
        = session node # concat (map (\<lambda>i. map flat_session
                 (flatten (children node ! i) (d + 1) ?npp (Suc i = length (children node))))
               [0..<length (children node)])"
    by (subst flatten_unfold) (simp only: list.map map_concat map_map comp_def FlatNode.simps)
  then show ?case by (simp only: below pre)
qed

lemma flattenTree_sessions: "map flat_session (flattenTree roots) = concat (map preorder roots)"
proof -
  have "map flat_session (flattenTree roots)
          = concat (map (\<lambda>i. preorder (roots ! i)) [0..<length roots])"
    by (simp only: flattenTree_def map_concat map_map comp_def flatten_sessions)
  also have "\<dots> = concat (map preorder (map (\<lambda>i. roots ! i) [0..<length roots]))"
    by (simp add: comp_def)
  also have "\<dots> = concat (map preorder roots)"
    by (simp only: map_nth)
  finally show ?thesis .
qed

lemma count_list_concat: "count_list (concat xss) x = sum_list (map (\<lambda>xs. count_list xs x) xss)"
  by (induction xss) simp_all

lemma sum_indicator_none:
  "(\<forall>c\<in>set cs. \<not> P c) \<Longrightarrow> sum_list (map (\<lambda>c. if P c then 1 else 0) cs) = (0::nat)"
  by (induction cs) simp_all

lemma sum_indicator_one:
  assumes "distinct cs" and "c0 \<in> set cs" and "P c0" and "\<And>c. c \<in> set cs \<Longrightarrow> P c \<Longrightarrow> c = c0"
  shows "sum_list (map (\<lambda>c. if P c then 1 else 0) cs) = (1::nat)"
proof -
  from assms(2) obtain as bs where split: "cs = as @ c0 # bs"
    by (auto simp: in_set_conv_decomp)
  with assms(1) have notin: "c0 \<notin> set as" "c0 \<notin> set bs" by auto
  have "\<forall>c\<in>set as. \<not> P c"
  proof (intro ballI notI)
    fix c assume c: "c \<in> set as" "P c"
    then have "c \<in> set cs" by (simp add: split)
    from assms(4)[OF this c(2)] c(1) notin(1) show False by simp
  qed
  then have a: "sum_list (map (\<lambda>c. if P c then 1 else 0) as) = (0::nat)"
    by (rule sum_indicator_none)
  have "\<forall>c\<in>set bs. \<not> P c"
  proof (intro ballI notI)
    fix c assume c: "c \<in> set bs" "P c"
    then have "c \<in> set cs" by (simp add: split)
    from assms(4)[OF this c(2)] c(1) notin(2) show False by simp
  qed
  then have b: "sum_list (map (\<lambda>c. if P c then 1 else 0) bs) = (0::nat)"
    by (rule sum_indicator_none)
  have "sum_list (map (\<lambda>c. if P c then 1 else 0) (as @ c0 # bs))
          = sum_list (map (\<lambda>c. if P c then 1 else 0) as) + ((if P c0 then 1 else 0)
            + sum_list (map (\<lambda>c. if P c then 1 else 0) bs))"
    by simp
  also have "\<dots> = (1::nat)" by (simp only: a b assms(3) if_True add_0 add_0_right)
  finally show ?thesis by (simp only: split)
qed

lemma count_list_distinct_filter:
  "distinct xs \<Longrightarrow> count_list (filter P xs) x = (if x \<in> set xs \<and> P x then 1 else 0)"
  by (induction xs) auto

lemma buildNode_count:
  assumes dist: "distinct (map path xs)"
  shows "q \<in> set xs \<Longrightarrow> atLevel xs k q \<Longrightarrow> buildNode f (fst (indexSessions xs)) q d = Some t \<Longrightarrow>
         count_list (preorder t) x
           = (if x \<in> set xs \<and> (\<exists>j. ancestor xs j x = Some q) then 1 else 0)"
proof (induction f arbitrary: q k d t)
  case 0
  then show ?case by simp
next
  case (Suc f)
  define co where "co = fst (indexSessions xs)"
  define cs where "cs = sort_key created (bucket co (JStr (path q)))"
  define P where "P = (\<lambda>c. x \<in> set xs \<and> (\<exists>j. ancestor xs j x = Some c))"
  define sub where "sub = (\<lambda>c. the (buildNode f co c (d + 1)))"
  have set_cs: "set cs = {c \<in> set xs. parentOf xs c = Some q}"
    by (auto simp: cs_def co_def indexSessions_children[OF dist Suc.prems(1)])
  have dist_cs: "distinct cs"
    using distinct_sessions[OF dist]
    by (simp add: cs_def co_def indexSessions_children[OF dist Suc.prems(1)])
  from Suc.prems(3) have built: "\<forall>c\<in>set cs. \<exists>tc. buildNode f co c (d + 1) = Some tc"
    and t: "t = SessionTreeNode q (map sub cs) d"
    unfolding buildNode_Suc_eq cs_def co_def sub_def by auto
  have lvl_c: "atLevel xs (Suc k) c" if "c \<in> set cs" for c
    using that set_cs Suc.prems(2) by (auto simp: atLevel_Suc)
  have sub_count: "count_list (preorder (sub c)) x = (if P c then 1 else 0)" if "c \<in> set cs" for c
  proof -
    from that built obtain tc where tc: "buildNode f co c (d + 1) = Some tc" by blast
    from that set_cs have "c \<in> set xs" by auto
    from Suc.IH[OF this lvl_c[OF that] tc[unfolded co_def]] tc show ?thesis
      by (simp add: sub_def P_def)
  qed
  have "map (\<lambda>c. count_list (preorder (sub c)) x) cs = map (\<lambda>c. if P c then 1 else 0) cs"
    by (rule map_cong[OF refl]) (rule sub_count)
  then have sum_eq: "sum_list (map (\<lambda>c. count_list (preorder (sub c)) x) cs)
            = sum_list (map (\<lambda>c. if P c then 1 else 0) cs)"
    by (rule arg_cong)
  have "count_list (preorder t) x
           = (if x = q then 1 else 0) + sum_list (map (\<lambda>c. count_list (preorder (sub c)) x) cs)"
    by (simp add: t count_list_concat comp_def)
  then have cnt: "count_list (preorder t) x
           = (if x = q then 1 else 0) + sum_list (map (\<lambda>c. if P c then 1 else 0) cs)"
    by (simp only: sum_eq)
  have up: "ancestor xs (Suc j) x = Some q" if "c \<in> set cs" "ancestor xs j x = Some c" for c j
    by (subst ancestor_Suc_end) (use that set_cs in auto)
  have q0: "ancestor xs 0 q = Some q" by simp
  show ?case
  proof (cases "x \<in> set xs \<and> (\<exists>j. ancestor xs j x = Some q)")
    case False
    have "x \<noteq> q" using False Suc.prems(1) q0 by blast
    moreover have "\<forall>c\<in>set cs. \<not> P c"
    proof (intro ballI notI)
      fix c assume "c \<in> set cs" "P c"
      then obtain i where "x \<in> set xs" "ancestor xs (Suc i) x = Some q"
        using up unfolding P_def by blast
      with False show False by blast
    qed
    then have "sum_list (map (\<lambda>c. if P c then 1 else 0) cs) = (0::nat)"
      by (rule sum_indicator_none)
    ultimately have "count_list (preorder t) x = 0" using cnt by simp
    with False show ?thesis by simp
  next
    case True
    then obtain j where x: "x \<in> set xs" and j: "ancestor xs j x = Some q" by blast
    have "count_list (preorder t) x = 1"
    proof (cases j)
      case 0
      with j have xq: "x = q" by simp
      have "\<forall>c\<in>set cs. \<not> P c"
      proof (intro ballI notI)
        fix c assume "c \<in> set cs" "P c"
        then obtain i where "ancestor xs (Suc i) q = Some q"
          using up xq unfolding P_def by blast
        from atLevel_no_cycle[OF Suc.prems(2) this] show False by simp
      qed
      then have "sum_list (map (\<lambda>c. if P c then 1 else 0) cs) = (0::nat)"
        by (rule sum_indicator_none)
      with cnt xq show ?thesis by simp
    next
      case (Suc i)
      from j[unfolded Suc ancestor_Suc_end]
      obtain c where c: "ancestor xs i x = Some c" "parentOf xs c = Some q"
        by (auto split: option.splits)
      from ancestor_in[OF x c(1)] c(2) set_cs have c_in: "c \<in> set cs" by auto
      have Pc: "P c" unfolding P_def using x c(1) by blast
      have xq: "x \<noteq> q"
      proof
        assume "x = q"
        with j Suc atLevel_no_cycle[OF \<open>atLevel xs k q\<close>, of "Suc i"] show False by simp
      qed
      have uniq: "c' = c" if c': "c' \<in> set cs" "P c'" for c'
      proof -
        from c'(2) obtain i' where i': "ancestor xs i' x = Some c'" unfolding P_def by blast
        from atLevel_descend[OF lvl_c[OF c_in] c(1)] atLevel_descend[OF lvl_c[OF c'(1)] i']
        have "Suc k + i = Suc k + i'" by (rule atLevel_unique)
        then have "i' = i" by simp
        with c(1) i' show "c' = c" by simp
      qed
      have "sum_list (map (\<lambda>c. if P c then 1 else 0) cs) = (1::nat)"
        using dist_cs c_in Pc uniq by (rule sum_indicator_one[where P = P and cs = cs and ?c0.0 = c])
      with cnt xq show ?thesis by simp
    qed
    with True show ?thesis by simp
  qed
qed

subsection \<open>The forest and its flattening\<close>

lemma buildSessionTree_eq:
  "buildSessionTree f xs
     = those (map (\<lambda>r. buildNode f (fst (indexSessions xs)) r 0)
               (sort_key (\<lambda>s. - modified s) (snd (indexSessions xs))))"
  by (simp add: buildSessionTree_def split: prod.splits)

lemma buildSessionTree_Some:
  "buildSessionTree f xs = Some forest \<longleftrightarrow>
   (\<forall>r\<in>set (snd (indexSessions xs)). \<exists>t. buildNode f (fst (indexSessions xs)) r 0 = Some t)
   \<and> forest = map (\<lambda>r. the (buildNode f (fst (indexSessions xs)) r 0))
                  (sort_key (\<lambda>s. - modified s) (snd (indexSessions xs)))"
proof
  assume "buildSessionTree f xs = Some forest"
  from those_map_eq[OF this[unfolded buildSessionTree_eq]]
  show "(\<forall>r\<in>set (snd (indexSessions xs)). \<exists>t. buildNode f (fst (indexSessions xs)) r 0 = Some t)
   \<and> forest = map (\<lambda>r. the (buildNode f (fst (indexSessions xs)) r 0))
                  (sort_key (\<lambda>s. - modified s) (snd (indexSessions xs)))"
    by auto
next
  assume a: "(\<forall>r\<in>set (snd (indexSessions xs)). \<exists>t. buildNode f (fst (indexSessions xs)) r 0 = Some t)
   \<and> forest = map (\<lambda>r. the (buildNode f (fst (indexSessions xs)) r 0))
                  (sort_key (\<lambda>s. - modified s) (snd (indexSessions xs)))"
  then have "\<forall>r\<in>set (sort_key (\<lambda>s. - modified s) (snd (indexSessions xs))).
      \<exists>t. buildNode f (fst (indexSessions xs)) r 0 = Some t" by simp
  from those_map_Some[OF this] a show "buildSessionTree f xs = Some forest"
    by (simp add: buildSessionTree_eq)
qed

lemma buildSessionTree_fuel_mono:
  assumes "buildSessionTree f xs = Some forest" and "f \<le> f'"
  shows "buildSessionTree f' xs = Some forest"
proof -
  let ?co = "fst (indexSessions xs)"
  let ?rs = "sort_key (\<lambda>s. - modified s) (snd (indexSessions xs))"
  from assms(1) have built: "\<forall>r\<in>set (snd (indexSessions xs)). \<exists>t. buildNode f ?co r 0 = Some t"
    and forest: "forest = map (\<lambda>r. the (buildNode f ?co r 0)) ?rs"
    unfolding buildSessionTree_Some by blast+
  have same: "buildNode f' ?co r 0 = Some (the (buildNode f ?co r 0))"
    if "r \<in> set (snd (indexSessions xs))" for r
    using built that buildNode_fuel_mono[OF assms(2), of ?co r 0] by fastforce
  then have "map (\<lambda>r. the (buildNode f' ?co r 0)) ?rs = map (\<lambda>r. the (buildNode f ?co r 0)) ?rs"
    by (intro map_cong) auto
  with same forest show ?thesis unfolding buildSessionTree_Some by auto
qed

lemma buildSessionTree_returns:
  assumes dist: "distinct (map path xs)"
  shows "\<exists>forest. buildSessionTree (length xs) xs = Some forest"
proof -
  have "\<exists>t. buildNode (length xs) (fst (indexSessions xs)) r 0 = Some t"
    if "r \<in> set (snd (indexSessions xs))" for r
  proof -
    from that have "r \<in> set xs" "atLevel xs 0 r"
      by (simp_all add: indexSessions_roots atLevel_0)
    from buildNode_returns[OF dist this, of "length xs" 0] show ?thesis by simp
  qed
  then show ?thesis unfolding buildSessionTree_Some by blast
qed

lemma forest_count:
  assumes dist: "distinct (map path xs)" and built: "buildSessionTree f xs = Some forest"
  shows "count_list (concat (map preorder forest)) x
           = (if x \<in> set xs \<and> reachesRoot xs x then 1 else 0)"
proof -
  define co where "co = fst (indexSessions xs)"
  define rs where "rs = sort_key (\<lambda>s. - modified s) (snd (indexSessions xs))"
  define P where "P = (\<lambda>r. x \<in> set xs \<and> (\<exists>j. ancestor xs j x = Some r))"
  define sub where "sub = (\<lambda>r. the (buildNode f co r 0))"
  have set_rs: "set rs = {r \<in> set xs. parentOf xs r = None}"
    by (auto simp: rs_def indexSessions_roots)
  have dist_rs: "distinct rs"
    using distinct_sessions[OF dist] by (simp add: rs_def indexSessions_roots)
  from built have some: "\<forall>r\<in>set rs. \<exists>t. buildNode f co r 0 = Some t"
    and forest: "forest = map sub rs"
    unfolding buildSessionTree_Some rs_def co_def sub_def by auto
  have sub_count: "count_list (preorder (sub r)) x = (if P r then 1 else 0)" if "r \<in> set rs" for r
  proof -
    from that some obtain t where t: "buildNode f co r 0 = Some t" by blast
    from that set_rs have r: "r \<in> set xs" "atLevel xs 0 r" by (auto simp: atLevel_0)
    from buildNode_count[OF dist r t[unfolded co_def], of x] t show ?thesis
      by (simp add: sub_def P_def)
  qed
  have "map (\<lambda>r. count_list (preorder (sub r)) x) rs = map (\<lambda>r. if P r then 1 else 0) rs"
    by (rule map_cong[OF refl]) (rule sub_count)
  then have sum_eq: "sum_list (map (\<lambda>r. count_list (preorder (sub r)) x) rs)
            = sum_list (map (\<lambda>r. if P r then 1 else 0) rs)"
    by (rule arg_cong)
  have "count_list (concat (map preorder forest)) x
           = sum_list (map (\<lambda>r. count_list (preorder (sub r)) x) rs)"
    by (simp add: forest count_list_concat comp_def)
  then have cnt: "count_list (concat (map preorder forest)) x
           = sum_list (map (\<lambda>r. if P r then 1 else 0) rs)"
    by (simp only: sum_eq)
  show ?thesis
  proof (cases "x \<in> set xs \<and> reachesRoot xs x")
    case True
    then have x: "x \<in> set xs" and "\<exists>k. atLevel xs k x"
      using reachesRoot_iff[of x xs] by blast+
    then obtain k r0 where k: "atLevel xs k x" and r0: "ancestor xs k x = Some r0" "parentOf xs r0 = None"
      by (auto simp: atLevel_def split: option.splits)
    from ancestor_in[OF x r0(1)] r0(2) set_rs have r0_in: "r0 \<in> set rs" by simp
    have Pr0: "P r0" unfolding P_def using x r0(1) by blast
    have uniq: "r = r0" if r: "r \<in> set rs" "P r" for r
    proof -
      from r(2) obtain j where j: "ancestor xs j x = Some r" unfolding P_def by blast
      from r(1) set_rs have "parentOf xs r = None" by simp
      with j have "atLevel xs j x" by (simp add: atLevel_def)
      from atLevel_unique[OF this k] j r0(1) show ?thesis by simp
    qed
    have "sum_list (map (\<lambda>r. if P r then 1 else 0) rs) = (1::nat)"
      using dist_rs r0_in Pr0 uniq by (rule sum_indicator_one[where P = P and cs = rs and ?c0.0 = r0])
    with cnt True show ?thesis by simp
  next
    case False
    have "\<forall>r\<in>set rs. \<not> P r"
    proof (intro ballI notI)
      fix r assume r: "r \<in> set rs" "P r"
      then obtain j where x: "x \<in> set xs" and j: "ancestor xs j x = Some r" unfolding P_def by blast
      from r(1) set_rs have "parentOf xs r = None" by simp
      with j have "atLevel xs j x" by (simp add: atLevel_def)
      with x have "reachesRoot xs x" by (auto simp: reachesRoot_iff)
      with x False show False by simp
    qed
    then have "sum_list (map (\<lambda>r. if P r then 1 else 0) rs) = (0::nat)"
      by (rule sum_indicator_none)
    with cnt False show ?thesis by simp
  qed
qed

lemma forest_sessions_mset:
  assumes dist: "distinct (map path xs)" and built: "buildSessionTree f xs = Some forest"
  shows "mset (map flat_session (flattenTree forest)) = mset (filter (reachesRoot xs) xs)"
proof (rule multiset_eqI)
  fix x
  have "count (mset (map flat_session (flattenTree forest))) x
          = count_list (concat (map preorder forest)) x"
    by (simp only: count_mset flattenTree_sessions)
  also have "\<dots> = (if x \<in> set xs \<and> reachesRoot xs x then 1 else 0)"
    by (rule forest_count[OF dist built])
  also have "\<dots> = count_list (filter (reachesRoot xs) xs) x"
    by (simp only: count_list_distinct_filter[OF distinct_sessions[OF dist]])
  also have "\<dots> = count (mset (filter (reachesRoot xs) xs)) x"
    by (simp only: count_mset)
  finally show "count (mset (map flat_session (flattenTree forest))) x
                 = count (mset (filter (reachesRoot xs) xs)) x" .
qed

text \<open>
  C1, as the code has it. For sessions with pairwise distinct paths, \<open>buildSessionTree\<close>
  returns (with any bound on the nesting of at least the number of sessions, and the
  same forest for each), and the flattened forest holds exactly one entry for each
  session whose chain of parent references ends at a session with an absent or dangling
  reference, and no entry for any other session. When every session is such, so when no
  reference names its own session or lies on a cycle, the entries are the sessions, one
  each.
\<close>

theorem flatten_one_entry_per_rooted_session:
  assumes "distinct (map path xs)"
  shows "\<exists>forest. (\<forall>f. length xs \<le> f \<longrightarrow> buildSessionTree f xs = Some forest)
           \<and> mset (map flat_session (flattenTree forest)) = mset (filter (reachesRoot xs) xs)
           \<and> ((\<forall>s\<in>set xs. reachesRoot xs s)
                \<longrightarrow> mset (map flat_session (flattenTree forest)) = mset xs
                    \<and> length (flattenTree forest) = length xs)"
proof -
  from buildSessionTree_returns[OF assms] obtain forest
    where built: "buildSessionTree (length xs) xs = Some forest" by blast
  have any: "\<forall>f. length xs \<le> f \<longrightarrow> buildSessionTree f xs = Some forest"
    using buildSessionTree_fuel_mono[OF built] by blast
  have ms: "mset (map flat_session (flattenTree forest)) = mset (filter (reachesRoot xs) xs)"
    by (rule forest_sessions_mset[OF assms built])
  have all: "mset (map flat_session (flattenTree forest)) = mset xs
             \<and> length (flattenTree forest) = length xs"
    if "\<forall>s\<in>set xs. reachesRoot xs s"
  proof -
    from that have "filter (reachesRoot xs) xs = xs" by (simp add: filter_id_conv)
    with ms have eq: "mset (map flat_session (flattenTree forest)) = mset xs" by simp
    from arg_cong[OF eq, of size] have "length (flattenTree forest) = length xs" by simp
    with eq show ?thesis by simp
  qed
  from any ms all show ?thesis by blast
qed

theorem flatten_one_entry_per_rooted_session_witness:
  "distinct (map path demoFamily)
   \<and> list_all (reachesRoot demoFamily) demoFamily
   \<and> (\<exists>forest. buildSessionTree 3 demoFamily = Some forest
         \<and> mset (map flat_session (flattenTree forest)) = mset demoFamily
         \<and> length (flattenTree forest) = 3)"
proof -
  have d: "distinct (map path demoFamily)" by code_simp
  have r: "list_all (reachesRoot demoFamily) demoFamily" by code_simp
  then have r': "\<forall>s\<in>set demoFamily. reachesRoot demoFamily s" by (simp only: list_all_iff)
  have n: "length demoFamily = 3" by code_simp
  from flatten_one_entry_per_rooted_session[OF d] r' n
  have "\<exists>forest. buildSessionTree 3 demoFamily = Some forest
         \<and> mset (map flat_session (flattenTree forest)) = mset demoFamily
         \<and> length (flattenTree forest) = 3"
    by (metis order_refl)
  with d r show ?thesis by blast
qed

text \<open>
  The one session that names itself as its parent: there is no root, the forest is empty
  and so is its flattening, for one input session.
\<close>

theorem self_parent_dropped_counterexample:
  "distinct (map path [demoSelf])
   \<and> buildSessionTree (length [demoSelf]) [demoSelf] = Some []
   \<and> flattenTree [] = []
   \<and> length [demoSelf] = 1"
proof -
  have "buildSessionTree 1 [demoSelf] = Some []" by code_simp
  moreover have "flattenTree [] = []" by (simp add: flattenTree_def)
  ultimately show ?thesis by simp
qed

text \<open>
  C2, as the code has it. For sessions with pairwise distinct paths, \<open>buildSessionTree\<close>
  returns, also when references name their own session or form a cycle. A session whose
  chain of parent references comes back to it is no root: the index pass puts it into the
  bucket of the reference it holds (its own path, when it names itself), and it is
  neither a root of the forest nor an entry of the flattening.
\<close>

theorem cyclic_session_is_child_not_root:
  assumes "distinct (map path xs)"
  shows "\<exists>forest. (\<forall>f. length xs \<le> f \<longrightarrow> buildSessionTree f xs = Some forest)
           \<and> (\<forall>s\<in>set xs. \<forall>j. ancestor xs (Suc j) s = Some s \<longrightarrow>
                  s \<notin> set (snd (indexSessions xs))
                  \<and> (\<exists>p. parentSession s = Some p \<and> s \<in> set (bucket (fst (indexSessions xs)) p))
                  \<and> s \<notin> session ` set forest
                  \<and> s \<notin> flat_session ` set (flattenTree forest))"
proof -
  from buildSessionTree_returns[OF assms] obtain forest
    where built: "buildSessionTree (length xs) xs = Some forest" by blast
  have any: "\<forall>f. length xs \<le> f \<longrightarrow> buildSessionTree f xs = Some forest"
    using buildSessionTree_fuel_mono[OF built] by blast
  have cyc: "s \<notin> set (snd (indexSessions xs))
             \<and> (\<exists>p. parentSession s = Some p \<and> s \<in> set (bucket (fst (indexSessions xs)) p))
             \<and> s \<notin> session ` set forest
             \<and> s \<notin> flat_session ` set (flattenTree forest)"
    if s: "s \<in> set xs" and c: "ancestor xs (Suc j) s = Some s" for s j
  proof -
    from cycle_not_reachesRoot[OF c] have nr: "\<not> reachesRoot xs s" and par: "parentOf xs s \<noteq> None"
      by simp_all
    from par have 1: "s \<notin> set (snd (indexSessions xs))"
      by (simp add: indexSessions_roots)
    from par obtain p where p: "parentSession s = Some p"
      by (auto simp: parentOf_def split: option.splits)
    with par s have 2: "\<exists>p. parentSession s = Some p \<and> s \<in> set (bucket (fst (indexSessions xs)) p)"
      by (simp add: indexSessions_bucket)
    from forest_count[OF assms built, of s] nr
    have zero: "count_list (concat (map preorder forest)) s = 0" by simp
    then have notin: "s \<notin> set (concat (map preorder forest))"
      using count_list_0_iff[of "concat (map preorder forest)" s] by blast
    have 3: "s \<notin> session ` set forest"
    proof
      assume "s \<in> session ` set forest"
      then obtain t where t: "t \<in> set forest" "session t = s" by blast
      have "session t \<in> set (preorder t)" by (cases t) simp
      with t notin show False by auto
    qed
    have "flat_session ` set (flattenTree forest) = set (map flat_session (flattenTree forest))"
      by simp
    also have "\<dots> = set (concat (map preorder forest))"
      by (simp only: flattenTree_sessions)
    finally have 4: "s \<notin> flat_session ` set (flattenTree forest)"
      using notin by blast
    from 1 2 3 4 show ?thesis by blast
  qed
  from any cyc show ?thesis by blast
qed

theorem cyclic_session_is_child_not_root_witness:
  "distinct (map path demoCycle)
   \<and> demoCycle ! 1 \<in> set demoCycle
   \<and> ancestor demoCycle (Suc 1) (demoCycle ! 1) = Some (demoCycle ! 1)
   \<and> demoCycle ! 1 \<notin> set (snd (indexSessions demoCycle))
   \<and> (\<exists>forest. buildSessionTree 3 demoCycle = Some forest
         \<and> demoCycle ! 1 \<notin> flat_session ` set (flattenTree forest))"
proof -
  have d: "distinct (map path demoCycle)" by code_simp
  have m: "demoCycle ! 1 \<in> set demoCycle" by code_simp
  have c: "ancestor demoCycle (Suc 1) (demoCycle ! 1) = Some (demoCycle ! 1)" by code_simp
  have n: "length demoCycle = 3" by code_simp
  from cyclic_session_is_child_not_root[OF d] obtain forest where
    f: "\<forall>f. length demoCycle \<le> f \<longrightarrow> buildSessionTree f demoCycle = Some forest"
    and s: "\<forall>s\<in>set demoCycle. \<forall>j. ancestor demoCycle (Suc j) s = Some s \<longrightarrow>
                  s \<notin> set (snd (indexSessions demoCycle))
                  \<and> (\<exists>p. parentSession s = Some p \<and> s \<in> set (bucket (fst (indexSessions demoCycle)) p))
                  \<and> s \<notin> session ` set forest
                  \<and> s \<notin> flat_session ` set (flattenTree forest)"
    by blast
  from f n have b: "buildSessionTree 3 demoCycle = Some forest" by simp
  from s m c have "demoCycle ! 1 \<notin> set (snd (indexSessions demoCycle))"
    and "demoCycle ! 1 \<notin> flat_session ` set (flattenTree forest)" by blast+
  with d m c b show ?thesis by blast
qed

text \<open>
  The two sessions \<open>/s/a\<close> and \<open>/s/b\<close> that name each other, beside the root \<open>/s/r\<close>:
  the roots of the index pass are \<open>/s/r\<close> alone, each of the two is in the bucket of
  the other, and the forest is the one tree of \<open>/s/r\<close>.
\<close>

theorem cycle_not_root_counterexample:
  "snd (indexSessions demoCycle) = [demoCycle ! 0]
   \<and> bucket (fst (indexSessions demoCycle)) (JStr (path (demoCycle ! 1))) = [demoCycle ! 2]
   \<and> bucket (fst (indexSessions demoCycle)) (JStr (path (demoCycle ! 2))) = [demoCycle ! 1]
   \<and> buildSessionTree 3 demoCycle = Some [SessionTreeNode (demoCycle ! 0) [] 0]"
  by code_simp

subsection \<open>The order of roots and children\<close>

lemma sort_key_again: "sort_key f (sort_key f xs) = sort_key f xs"
  by (rule sort_key_id_if_sorted) simp








lemma flatten_node:
  "flatten (SessionTreeNode s ts dd) d parentPrefixes is_last
     = \<lparr>flat_session = s, flat_depth = d,
         prefix = (if d > 0 then concat parentPrefixes @ (if is_last then lastConn else branchConn)
                   else []),
         isLast = is_last, hasChildren = (length ts > 0)\<rparr>
       # concat (map (\<lambda>i. flatten (ts ! i) (d + 1)
                             (if d > 0 then parentPrefixes @ [if is_last then blankFrag else barFrag]
                              else parentPrefixes)
                             (Suc i = length ts))
                  [0..<length ts])"
  by (subst flatten_unfold) simp



subsection \<open>Prefixes\<close>

lemma flatten_entry:
  "e \<in> set (flatten t d pp l) \<Longrightarrow>
   \<exists>js node. subAt t js = Some node
     \<and> flat_session e = session node
     \<and> flat_depth e = d + length js
     \<and> isLast e = last (l # flagsBelow t js)
     \<and> hasChildren e = (children node \<noteq> [])
     \<and> prefix e =
         (if d + length js > 0
          then concat (pp @ map ancestorFragment
                        (butlast ((if d > 0 then [l] else []) @ flagsBelow t js)))
               @ connector (last (l # flagsBelow t js))
          else [])"
proof (induction t d pp l arbitrary: e rule: flatten.induct)
  case (1 node d parentPrefixes is_last)
  let ?npp = "if 0 < d then parentPrefixes @ [if is_last then blankFrag else barFrag]
              else parentPrefixes"
  let ?head = "\<lparr>flat_session = session node, flat_depth = d,
         prefix = (if d > 0 then concat parentPrefixes @ (if is_last then lastConn else branchConn)
                   else []),
         isLast = is_last, hasChildren = (length (children node) > 0)\<rparr>"
  from "1.prems"[unfolded flatten_unfold[of node d parentPrefixes is_last]]
  consider (head) "e = ?head"
    | (below) i where "i \<in> set [0..<length (children node)]"
        "e \<in> set (flatten (children node ! i) (d + 1) ?npp (Suc i = length (children node)))"
    by auto
  then show ?case
  proof cases
    case head
    have "subAt node [] = Some node" by simp
    moreover have "flat_session e = session node" "flat_depth e = d + length ([]::nat list)"
      "isLast e = last (is_last # flagsBelow node [])" "hasChildren e = (children node \<noteq> [])"
      by (simp_all add: head)
    moreover have "prefix e =
         (if d + length ([]::nat list) > 0
          then concat (parentPrefixes @ map ancestorFragment
                        (butlast ((if d > 0 then [is_last] else []) @ flagsBelow node [])))
               @ connector (last (is_last # flagsBelow node []))
          else [])"
      by (simp add: head connector_def)
    ultimately show ?thesis by blast
  next
    case below
    let ?c = "children node ! i"
    let ?li = "Suc i = length (children node)"
    from "1.IH"[OF refl refl below] obtain js n where
      sub: "subAt ?c js = Some n" and ses: "flat_session e = session n"
      and dep: "flat_depth e = d + 1 + length js"
      and lst: "isLast e = last (?li # flagsBelow ?c js)"
      and hc: "hasChildren e = (children n \<noteq> [])"
      and pre: "prefix e = concat (?npp @ map ancestorFragment (butlast ([?li] @ flagsBelow ?c js)))
                  @ connector (last (?li # flagsBelow ?c js))"
      by auto
    from below(1) have i: "i < length (children node)" by simp
    have fb: "flagsBelow node (i # js) = ?li # flagsBelow ?c js" by simp
    have 1: "subAt node (i # js) = Some n" using sub i by simp
    have 2: "flat_depth e = d + length (i # js)" using dep by simp
    have 3: "isLast e = last (is_last # flagsBelow node (i # js))" using lst by simp
    have "?npp @ map ancestorFragment (butlast ([?li] @ flagsBelow ?c js))
          = parentPrefixes @ map ancestorFragment
              (butlast ((if d > 0 then [is_last] else []) @ flagsBelow node (i # js)))"
      by (simp add: ancestorFragment_def)
    then have "prefix e = concat (parentPrefixes @ map ancestorFragment
                        (butlast ((if d > 0 then [is_last] else []) @ flagsBelow node (i # js))))
               @ connector (last (?li # flagsBelow ?c js))"
      by (simp only: pre)
    moreover have "last (is_last # flagsBelow node (i # js)) = last (?li # flagsBelow ?c js)"
      by simp
    ultimately have 4: "prefix e =
         (if d + length (i # js) > 0
          then concat (parentPrefixes @ map ancestorFragment
                        (butlast ((if d > 0 then [is_last] else []) @ flagsBelow node (i # js))))
               @ connector (last (is_last # flagsBelow node (i # js)))
          else [])"
      by (simp only: length_Cons add_Suc_right zero_less_Suc if_True)
    from 1 ses 2 3 hc 4 show ?thesis by blast
  qed
qed

lemma fragments_prefix:
  "fragments (concat (map ancestorFragment fl) @ connector b) = map ancestorFragment fl @ [connector b]"
  by (induction fl)
     (simp_all add: ancestorFragment_def connector_def blankFrag_def barFrag_def lastConn_def
        branchConn_def)

lemma ancestorFragment_bar: "ancestorFragment b = barFrag \<longleftrightarrow> \<not> b"
  by (simp add: ancestorFragment_def blankFrag_def barFrag_def)

lemma ancestorFragment_blank: "ancestorFragment b = blankFrag \<longleftrightarrow> b"
  by (simp add: ancestorFragment_def blankFrag_def barFrag_def)

lemma connector_last: "connector b = lastConn \<longleftrightarrow> b"
  by (simp add: connector_def lastConn_def branchConn_def)

lemma connector_branch: "connector b = branchConn \<longleftrightarrow> \<not> b"
  by (simp add: connector_def lastConn_def branchConn_def)

lemma prefix_counts:
  "barCount (concat (map ancestorFragment fl) @ connector b) = length (filter (\<lambda>x. \<not> x) fl)
   \<and> blankCount (concat (map ancestorFragment fl) @ connector b) = length (filter (\<lambda>x. x) fl)
   \<and> ownConnector (concat (map ancestorFragment fl) @ connector b) = connector b"
proof -
  have "filter (\<lambda>f. f = barFrag) (map ancestorFragment fl) = map ancestorFragment (filter (\<lambda>x. \<not> x) fl)"
    by (simp add: filter_map comp_def ancestorFragment_bar)
  moreover
  have "filter (\<lambda>f. f = blankFrag) (map ancestorFragment fl) = map ancestorFragment (filter (\<lambda>x. x) fl)"
    by (simp add: filter_map comp_def ancestorFragment_blank)
  ultimately show ?thesis
    by (simp add: barCount_def blankCount_def ownConnector_def fragments_prefix)
qed

lemma length_flagsBelow: "length (flagsBelow t js) = length js"
  by (induction js arbitrary: t) simp_all

lemma flatten_entry_root:
  assumes "e \<in> set (flatten t 0 [] l)"
  shows "\<exists>js node. subAt t js = Some node
     \<and> flat_session e = session node
     \<and> flat_depth e = length js
     \<and> isLast e = last (l # flagsBelow t js)
     \<and> prefix e =
         (if length js > 0
          then concat (map ancestorFragment (butlast (flagsBelow t js)))
               @ connector (last (l # flagsBelow t js))
          else [])"
proof -
  from flatten_entry[OF assms] obtain js node where
    "subAt t js = Some node" "flat_session e = session node" "flat_depth e = 0 + length js"
    "isLast e = last (l # flagsBelow t js)"
    "prefix e =
         (if 0 + length js > 0
          then concat ([] @ map ancestorFragment
                        (butlast ((if (0::nat) > 0 then [l] else []) @ flagsBelow t js)))
               @ connector (last (l # flagsBelow t js))
          else [])"
    by blast
  then have "subAt t js = Some node \<and> flat_session e = session node
     \<and> flat_depth e = length js
     \<and> isLast e = last (l # flagsBelow t js)
     \<and> prefix e =
         (if length js > 0
          then concat (map ancestorFragment (butlast (flagsBelow t js)))
               @ connector (last (l # flagsBelow t js))
          else [])"
    by simp
  then show ?thesis by blast
qed

text \<open>
  C3. Every entry of the flattening is the entry of a node at some position of the
  forest, with the depth of that position, and its \<open>isLast\<close> tells whether the node is
  the last of its siblings. An entry of depth 0 has the empty prefix. The prefix of any
  other entry is one fragment for each proper ancestor that has a parent (the root of the
  tree, which has none, contributes nothing), three blanks for an ancestor that is the
  last child of its parent and the bar fragment for one that is not, in the order from
  the root down, followed by the connector of the entry itself. So the number of bar
  fragments before the connector is the number of those ancestors that are not a last
  child, the number of blank fragments the number of those that are, and the connector
  is the "last" one exactly when the entry is the last of its siblings.
\<close>

theorem prefix_follows_ancestors:
  "\<forall>e\<in>set (flattenTree roots). \<exists>pos node.
      nodeAt roots pos = Some node
    \<and> flat_session e = session node
    \<and> Suc (flat_depth e) = length pos
    \<and> isLast e = last (lastFlags roots pos)
    \<and> length (ancestorFlags roots pos) = flat_depth e - 1
    \<and> (if flat_depth e = 0 then prefix e = []
       else prefix e = concat (map ancestorFragment (ancestorFlags roots pos)) @ connector (isLast e)
          \<and> barCount (prefix e) = length (filter (\<lambda>b. \<not> b) (ancestorFlags roots pos))
          \<and> blankCount (prefix e) = length (filter (\<lambda>b. b) (ancestorFlags roots pos))
          \<and> (ownConnector (prefix e) = lastConn) = isLast e
          \<and> (ownConnector (prefix e) = branchConn) = (\<not> isLast e))"
proof
  fix e assume "e \<in> set (flattenTree roots)"
  then obtain i where i: "i < length roots"
    and e: "e \<in> set (flatten (roots ! i) 0 [] (Suc i = length roots))"
    by (auto simp: flattenTree_def)
  let ?li = "Suc i = length roots"
  from flatten_entry_root[OF e] obtain js node where
    sub: "subAt (roots ! i) js = Some node" and ses: "flat_session e = session node"
    and dep: "flat_depth e = length js"
    and lst: "isLast e = last (?li # flagsBelow (roots ! i) js)"
    and pre: "prefix e =
         (if length js > 0
          then concat (map ancestorFragment (butlast (flagsBelow (roots ! i) js)))
               @ connector (last (?li # flagsBelow (roots ! i) js))
          else [])"
    by blast
  let ?pos = "i # js"
  have 1: "nodeAt roots ?pos = Some node" using sub i by simp
  have 2: "Suc (flat_depth e) = length ?pos" using dep by simp
  have 3: "isLast e = last (lastFlags roots ?pos)" using lst by simp
  have af: "ancestorFlags roots ?pos = butlast (flagsBelow (roots ! i) js)"
    by (simp add: ancestorFlags_def)
  have 4: "length (ancestorFlags roots ?pos) = flat_depth e - 1"
    by (simp add: af dep length_flagsBelow)
  have 5: "(if flat_depth e = 0 then prefix e = []
       else prefix e = concat (map ancestorFragment (ancestorFlags roots ?pos)) @ connector (isLast e)
          \<and> barCount (prefix e) = length (filter (\<lambda>b. \<not> b) (ancestorFlags roots ?pos))
          \<and> blankCount (prefix e) = length (filter (\<lambda>b. b) (ancestorFlags roots ?pos))
          \<and> (ownConnector (prefix e) = lastConn) = isLast e
          \<and> (ownConnector (prefix e) = branchConn) = (\<not> isLast e))"
  proof (cases "flat_depth e = 0")
    case True
    with dep pre show ?thesis by simp
  next
    case False
    with dep pre lst
    have p: "prefix e = concat (map ancestorFragment (ancestorFlags roots ?pos)) @ connector (isLast e)"
      by (simp only: af) simp
    from prefix_counts[of "ancestorFlags roots ?pos" "isLast e"] p False
    show ?thesis by (simp add: connector_last connector_branch)
  qed
  from 1 ses 2 3 4 5 show "\<exists>pos node.
      nodeAt roots pos = Some node
    \<and> flat_session e = session node
    \<and> Suc (flat_depth e) = length pos
    \<and> isLast e = last (lastFlags roots pos)
    \<and> length (ancestorFlags roots pos) = flat_depth e - 1
    \<and> (if flat_depth e = 0 then prefix e = []
       else prefix e = concat (map ancestorFragment (ancestorFlags roots pos)) @ connector (isLast e)
          \<and> barCount (prefix e) = length (filter (\<lambda>b. \<not> b) (ancestorFlags roots pos))
          \<and> blankCount (prefix e) = length (filter (\<lambda>b. b) (ancestorFlags roots pos))
          \<and> (ownConnector (prefix e) = lastConn) = isLast e
          \<and> (ownConnector (prefix e) = branchConn) = (\<not> isLast e))"
    by blast
qed

lemma demoDeep_flat:
  "map (\<lambda>e. (path (flat_session e), flat_depth e, prefix e, isLast e)) (flattenTree demoDeep)
     = [(str ''/r'', 0, [], True),
        (str ''/x'', 1, branchConn, False),
        (str ''/g'', 2, barFrag @ lastConn, True),
        (str ''/y'', 1, lastConn, True)]"
  by (simp add: flattenTree_def flatten_node demoDeep_def demoSession_def upt_rec)

theorem prefix_follows_ancestors_witness:
  "flattenTree demoDeep ! 2 \<in> set (flattenTree demoDeep)
   \<and> prefix (flattenTree demoDeep ! 2) = barFrag @ lastConn
   \<and> flat_depth (flattenTree demoDeep ! 2) = 2
   \<and> nodeAt demoDeep [0, 0, 0] = Some (SessionTreeNode (demoSession ''/g'' 4 4 (Some (JStr (str ''/x'')))) [] 2)
   \<and> ancestorFlags demoDeep [0, 0, 0] = [False]
   \<and> (\<exists>pos. length pos = 3
         \<and> barCount (barFrag @ lastConn) = length (filter (\<lambda>b. \<not> b) (ancestorFlags demoDeep pos))
         \<and> ownConnector (barFrag @ lastConn) = lastConn)"
proof -
  let ?e = "flattenTree demoDeep ! 2"
  have len: "length (flattenTree demoDeep) = 4"
    using arg_cong[OF demoDeep_flat, of length] by simp
  then have m: "?e \<in> set (flattenTree demoDeep)" by simp
  have "(\<lambda>e. (path (flat_session e), flat_depth e, prefix e, isLast e)) ?e
          = (str ''/g'', 2, barFrag @ lastConn, True)"
    using arg_cong[OF demoDeep_flat, of "\<lambda>l. l ! 2"] len by simp
  then have p: "prefix ?e = barFrag @ lastConn" and d: "flat_depth ?e = 2" and l: "isLast ?e"
    by simp_all
  have n: "nodeAt demoDeep [0, 0, 0]
             = Some (SessionTreeNode (demoSession ''/g'' 4 4 (Some (JStr (str ''/x'')))) [] 2)"
    by (simp add: demoDeep_def)
  have a: "ancestorFlags demoDeep [0, 0, 0] = [False]"
    by (simp add: ancestorFlags_def demoDeep_def)
  from prefix_follows_ancestors[of demoDeep] m obtain pos where
    L: "Suc (flat_depth ?e) = length pos" and
    I: "(if flat_depth ?e = 0 then prefix ?e = []
       else prefix ?e = concat (map ancestorFragment (ancestorFlags demoDeep pos)) @ connector (isLast ?e)
          \<and> barCount (prefix ?e) = length (filter (\<lambda>b. \<not> b) (ancestorFlags demoDeep pos))
          \<and> blankCount (prefix ?e) = length (filter (\<lambda>b. b) (ancestorFlags demoDeep pos))
          \<and> (ownConnector (prefix ?e) = lastConn) = isLast ?e
          \<and> (ownConnector (prefix ?e) = branchConn) = (\<not> isLast ?e))"
    by blast
  have nz: "flat_depth ?e \<noteq> 0" using d by simp
  from I[unfolded if_not_P[OF nz]] have "prefix ?e = concat (map ancestorFragment (ancestorFlags demoDeep pos)) @ connector (isLast ?e)
          \<and> barCount (prefix ?e) = length (filter (\<lambda>b. \<not> b) (ancestorFlags demoDeep pos))
          \<and> blankCount (prefix ?e) = length (filter (\<lambda>b. b) (ancestorFlags demoDeep pos))
          \<and> (ownConnector (prefix ?e) = lastConn) = isLast ?e
          \<and> (ownConnector (prefix ?e) = branchConn) = (\<not> isLast ?e)" .
  then have B: "barCount (prefix ?e) = length (filter (\<lambda>b. \<not> b) (ancestorFlags demoDeep pos))"
    and O: "(ownConnector (prefix ?e) = lastConn) = isLast ?e"
    by blast+
  from L d have L3: "length pos = 3" by simp
  from B have B': "barCount (barFrag @ lastConn) = length (filter (\<lambda>b. \<not> b) (ancestorFlags demoDeep pos))"
    by (simp only: p)
  from O l have O': "ownConnector (barFrag @ lastConn) = lastConn"
    by (simp only: p)
  from L3 B' O' have "\<exists>pos. length pos = 3
         \<and> barCount (barFrag @ lastConn) = length (filter (\<lambda>b. \<not> b) (ancestorFlags demoDeep pos))
         \<and> ownConnector (barFrag @ lastConn) = lastConn"
    by blast
  with m p d n a show ?thesis by blast
qed

end
